theory Spec2Isabelle
  imports Main "HOL-Library.AList"
begin

section \<open>The requester of the load generator (runner/requester.go)\<close>

text \<open>
  A shallow embedding of \<^verbatim>\<open>runner/requester.go\<close>. Go's \<^verbatim>\<open>int\<close> is modelled as
  \<^typ>\<open>int\<close>, with the wrap-around of 64 bits written out where a product or a
  quotient can leave the range, and the one division of the file is written with its
  run-time panic. A Go \<^verbatim>\<open>error\<close> value is an \<open>err\<close>, a nil error is \<open>None\<close>. A
  run-time panic is a \<open>fault\<close>. A slice that may be nil is a list option (\<open>None\<close> is
  the nil slice). Goroutines and channels are modelled by schedules: a function takes the
  list of the events that happen, in order, and returns the state they lead to. Logging
  and timing have no effect on that state and are left out. The machine is taken to have
  the memory that the run time agrees to allocate: a size that the run time refuses is a
  panic of the model, its fatal error for memory that the operating system does not
  grant is not.
\<close>

subsection \<open>Data\<close>

datatype err = Err string

text \<open>
  The panics of the file. \<open>InvalidPointer\<close> stands for the use of a \<^verbatim>\<open>*Worker\<close>
  that points at no worker.
\<close>

datatype fault =
    IntegerDivideByZero
  | IndexOutOfRange
  | MakeSizeOutOfRange
  | SendOnClosedChannel
  | CloseOfClosedChannel
  | InvalidPointer

text \<open>A dialed connection is named by the number of the dial attempt that produced it.\<close>

type_synonym conn = nat

datatype stub = NewStub conn

text \<open>
  The load strategies and schedules are declared in another file; requester.go names
  \<^verbatim>\<open>StrategyConcurrency\<close> and \<^verbatim>\<open>ScheduleConst\<close> only.
\<close>

datatype loadStrategy = StrategyConcurrency | StrategyOther nat

datatype loadSchedule = ScheduleConst | ScheduleOther nat

datatype dialOption =
    WithInsecure
  | WithTransportCredentials
  | WithAuthority string
  | WithKeepaliveParams int int
  | WithStatsHandler int
  | WithDefaultCallOptions

text \<open>
  \<^verbatim>\<open>RunConfig\<close> is declared in another file of the package. These are the fields
  that requester.go reads, with the types that their uses there fix: \<open>n\<close>, \<open>c\<close>
  and \<open>nConns\<close> are compared and combined with \<^verbatim>\<open>int\<close> values.
\<close>

record RunConfig =
  call :: string
  host :: string
  proto :: string
  protoset :: string
  importPaths :: "string list"
  n :: int
  c :: int
  nConns :: int
  name :: string
  zstop :: string
  binary :: bool
  data :: string
  rmd :: "(string \<times> string) list option"
  insecure :: bool
  authority :: string
  keepaliveTime :: int
  loadStrategy :: loadStrategy
  loadSchedule :: loadSchedule

record MethodDescriptor =
  mtdName :: string
  isClientStreaming :: bool

text \<open>
  Modelled from the spec: the type \<^verbatim>\<open>statsHandler\<close> is declared in another file of
  the package. "An Ignore(bool) toggle, settable per tap, suppresses enqueuing while left
  true." The field \<open>hid\<close> is the \<^verbatim>\<open>id\<close> that \<^verbatim>\<open>newClientConn\<close> sets, and
  \<open>ignore\<close> is the flag that \<^verbatim>\<open>Ignore\<close> sets.
\<close>

record statsHandler =
  hid :: int
  ignore :: bool

text \<open>
  The requester. Of the result channel \<^verbatim>\<open>results\<close> the capacity is kept and whether it
  has been closed; the values that the stats handlers send on it are the business of
  another file and are not kept. The lock has no counterpart, since every function below
  runs to its end.
\<close>

record Requester =
  conns :: "conn list option"
  stubs :: "stub list"
  handlers :: "statsHandler list"
  mtd :: "MethodDescriptor option"
  config :: RunConfig
  resultsCap :: int
  resultsClosed :: bool
  reqCounter :: int
  arrayJSONData :: "string list option"

text \<open>
  What the requester does to the network: the options of every dial attempt, in order,
  and every connection \<^verbatim>\<open>Close()\<close> was called on, in order.
\<close>

record world =
  dialLog :: "dialOption list list"
  closeLog :: "conn list"

text \<open>
  The outcome of \<^verbatim>\<open>grpc.DialContext\<close> is the environment's: a dialer tells, for
  the k-th dial attempt of the run, whether it fails.
\<close>

type_synonym dialer = "nat \<Rightarrow> err option"

text \<open>Go's \<^verbatim>\<open>len\<close> of a slice that may be nil.\<close>

definition len :: "'a list option \<Rightarrow> int" where
  "len s = (case s of None \<Rightarrow> 0 | Some xs \<Rightarrow> int (length xs))"

text \<open>Go's \<^verbatim>\<open>append\<close> to a slice that may be nil.\<close>

definition append1 :: "'a list option \<Rightarrow> 'a \<Rightarrow> 'a list option" where
  "append1 s x = (case s of None \<Rightarrow> Some [x] | Some xs \<Rightarrow> Some (xs @ [x]))"

definition elems :: "'a list option \<Rightarrow> 'a list" where
  "elems s = (case s of None \<Rightarrow> [] | Some xs \<Rightarrow> xs)"

subsection \<open>Connections\<close>

definition dialOptions :: "RunConfig \<Rightarrow> dialOption list" where
  "dialOptions cfg =
     (if insecure cfg then [WithInsecure] else [WithTransportCredentials])
     @ (if authority cfg \<noteq> [] then [WithAuthority (authority cfg)] else [])
     @ (if keepaliveTime cfg > 0
        then [WithKeepaliveParams (keepaliveTime cfg) (keepaliveTime cfg)] else [])"

text \<open>
  \<^verbatim>\<open>newClientConn\<close>: the dial options in the order of the source, a new stats handler
  appended to \<^verbatim>\<open>b.handlers\<close> when one is asked for (also when the dial then fails),
  and the dial itself.
\<close>

definition newClientConn ::
  "dialer \<Rightarrow> bool \<Rightarrow> Requester \<Rightarrow> world \<Rightarrow> (err + conn) \<times> Requester \<times> world" where
  "newClientConn dial withStatsHandler b w =
     (let opts = dialOptions (config b);
          sh = \<lparr>hid = int (length (handlers b)), ignore = False\<rparr>;
          b' = (if withStatsHandler then b\<lparr>handlers := handlers b @ [sh]\<rparr> else b);
          opts' = (if withStatsHandler then opts @ [WithStatsHandler (hid sh)] else opts)
                  @ [WithDefaultCallOptions];
          k = length (dialLog w);
          w' = w\<lparr>dialLog := dialLog w @ [opts']\<rparr>
      in case dial k of
           Some e \<Rightarrow> (Inl e, b', w')
         | None \<Rightarrow> (Inr k, b', w'))"

text \<open>
  The loop of \<^verbatim>\<open>openClientConns\<close>, from counter \<open>i\<close> up to \<open>nConns\<close> (passed as
  \<open>m\<close>): each round dials one connection with a stats handler and appends it to
  \<^verbatim>\<open>b.conns\<close>; the first failing dial returns its error at once.
\<close>

function openLoop ::
  "dialer \<Rightarrow> int \<Rightarrow> int \<Rightarrow> Requester \<Rightarrow> world \<Rightarrow> (err + conn list option) \<times> Requester \<times> world"
  where
  "openLoop dial m i b w =
     (if i < m then
        (case newClientConn dial True b w of
           (Inl e, b', w') \<Rightarrow> (Inl e, b', w')
         | (Inr cn, b', w') \<Rightarrow> openLoop dial m (i + 1) (b'\<lparr>conns := append1 (conns b') cn\<rparr>) w')
      else (Inr (conns b), b, w))"
  by pat_completeness auto
termination
  by (relation "measure (\<lambda>(dial, m, i, b, w). nat (m - i))") auto

declare openLoop.simps [simp del]

definition openClientConns ::
  "dialer \<Rightarrow> Requester \<Rightarrow> world \<Rightarrow> (err + conn list option) \<times> Requester \<times> world" where
  "openClientConns dial b w =
     (if len (conns b) = nConns (config b) then (Inr (conns b), b, w)
      else openLoop dial (nConns (config b)) 0 b w)"

definition closeClientConns :: "Requester \<Rightarrow> world \<Rightarrow> Requester \<times> world" where
  "closeClientConns b w =
     (case conns b of
        None \<Rightarrow> (b, w)
      | Some cs \<Rightarrow> (b\<lparr>conns := None\<rparr>, w\<lparr>closeLog := closeLog w @ cs\<rparr>))"

subsection \<open>Construction\<close>

text \<open>
  The collaborators of \<^verbatim>\<open>newRequester\<close> that live outside this file: the three
  descriptor sources of package \<^verbatim>\<open>protodesc\<close>, \<^verbatim>\<open>dynamic.NewMessage\<close> (only
  whether it returns nil matters), the JSON decoder and encoder, and the dialer. They are
  parameters of the model. \<open>'j\<close> is the type of a decoded array element
  (\<^verbatim>\<open>map[string]interface{}\<close>).
\<close>

record 'j env =
  getMethodDescFromProto :: "string \<Rightarrow> string \<Rightarrow> string list \<Rightarrow> err + MethodDescriptor"
  getMethodDescFromProtoSet :: "string \<Rightarrow> string \<Rightarrow> err + MethodDescriptor"
  getMethodDescFromReflect :: "string \<Rightarrow> conn \<Rightarrow> (string \<times> string) list \<Rightarrow> err + MethodDescriptor"
  newMessageIsNil :: "MethodDescriptor \<Rightarrow> bool"
  jsonUnmarshal :: "string \<Rightarrow> err + 'j list"
  jsonMarshal :: "'j \<Rightarrow> err + string"
  dialContext :: dialer

definition maxResult :: int where
  "maxResult = 1000000"

text \<open>Go's \<^verbatim>\<open>int\<close> on a 64-bit platform: the product \<^verbatim>\<open>c.c*1000\<close> wraps around.\<close>

definition wrapInt :: "int \<Rightarrow> int" where
  "wrapInt x = (x + 2 ^ 63) mod 2 ^ 64 - 2 ^ 63"

text \<open>\<^verbatim>\<open>strings.IndexRune\<close> for an ASCII rune: the index of its first occurrence, or -1.\<close>

fun IndexRune :: "string \<Rightarrow> char \<Rightarrow> int" where
  "IndexRune [] r = -1"
| "IndexRune (x # xs) r =
     (if x = r then 0 else (let k = IndexRune xs r in if k < 0 then -1 else k + 1))"

text \<open>The outgoing metadata of the reflection query (lines 93 to 96).\<close>

definition reflectMetadata :: "RunConfig \<Rightarrow> (string \<times> string) list" where
  "reflectMetadata cfg =
     (case rmd cfg of None \<Rightarrow> [] | Some m \<Rightarrow> if length m > 0 then m else [])"

text \<open>The loop of lines 128 to 135: every element is encoded, the first error returns.\<close>

fun marshalAll :: "('j \<Rightarrow> err + string) \<Rightarrow> 'j list \<Rightarrow> err + string list" where
  "marshalAll enc [] = Inr []"
| "marshalAll enc (d # ds) =
     (case enc d of
        Inl e \<Rightarrow> Inl e
      | Inr s \<Rightarrow> (case marshalAll enc ds of Inl e \<Rightarrow> Inl e | Inr ss \<Rightarrow> Inr (s # ss)))"

text \<open>
  The size checks of \<^verbatim>\<open>make\<close>, as the run time of Go does them on a 64-bit platform
  whose heap addresses have 48 bits (\<^verbatim>\<open>runtime.makechan\<close> and \<^verbatim>\<open>runtime.makeslice\<close>
  on linux/amd64): a channel of \<open>sz\<close> elements of \<open>elem\<close> bytes is refused when the
  size is negative or the buffer does not fit beside the channel header below
  \<^verbatim>\<open>maxAlloc\<close>; a slice of length \<open>ln\<close> and capacity \<open>cp\<close> is refused when the
  length is negative or above the capacity or the elements take more than
  \<^verbatim>\<open>maxAlloc\<close> bytes. Either refusal is a panic.
\<close>

definition maxAlloc :: int where
  "maxAlloc = 2 ^ 48"

definition hchanSize :: int where
  "hchanSize = 96"

definition makechanPanics :: "int \<Rightarrow> int \<Rightarrow> bool" where
  "makechanPanics elem sz \<longleftrightarrow> sz < 0 \<or> maxAlloc - hchanSize < elem * sz"

definition makeslicePanics :: "int \<Rightarrow> int \<Rightarrow> int \<Rightarrow> bool" where
  "makeslicePanics elem ln cp \<longleftrightarrow> maxAlloc < elem * cp \<or> ln < 0 \<or> cp < ln"

text \<open>
  The bytes of the elements that this file asks \<^verbatim>\<open>make\<close> for: a pointer is one word of
  eight bytes, a value of an interface type (\<^verbatim>\<open>error\<close>) is two words, a string is a
  pointer and a length, and a \<^verbatim>\<open>grpcdynamic.Stub\<close>, which is declared in a library
  outside this repository, holds a value of an interface type and a pointer.
\<close>

definition ptrSize :: int where
  "ptrSize = 8"

definition errorSize :: int where
  "errorSize = 2 * ptrSize"

definition stringSize :: int where
  "stringSize = 2 * ptrSize"

definition stubSize :: int where
  "stubSize = 3 * ptrSize"

text \<open>
  Lines 105 to 139 of \<^verbatim>\<open>newRequester\<close>: what follows the choice of the descriptor
  source, given the outcome \<open>res\<close> of that source. An error is the inner \<open>Inl\<close>, the
  panic of \<^verbatim>\<open>make([]string, len(dat))\<close> on a length that the run time refuses is the
  outer one.
\<close>

definition fillRequester ::
  "'j env \<Rightarrow> Requester \<Rightarrow> err + MethodDescriptor \<Rightarrow> fault + (err + Requester)" where
  "fillRequester ev reqr res =
     (case res of
        Inl e \<Rightarrow> Inr (Inl e)
      | Inr m \<Rightarrow>
          if newMessageIsNil ev m
          then Inr (Inl (Err (''No input type of method: '' @ mtdName m)))
          else
            (let reqr1 = reqr\<lparr>mtd := Some m, arrayJSONData := None\<rparr>;
                 cfg = config reqr
             in if \<not> binary cfg \<and> \<not> isClientStreaming m then
                  (if IndexRune (data cfg) (CHR ''['') = 0 then
                     (case jsonUnmarshal ev (data cfg) of
                        Inl e \<Rightarrow> Inr (Inl e)
                      | Inr dat \<Rightarrow>
                          if makeslicePanics stringSize (int (length dat)) (int (length dat))
                          then Inl MakeSizeOutOfRange
                          else
                            (case marshalAll (jsonMarshal ev) dat of
                               Inl e \<Rightarrow> Inr (Inl e)
                             | Inr strs \<Rightarrow>
                                 Inr (Inr (reqr1\<lparr>arrayJSONData := Some strs\<rparr>))))
                   else Inr (Inr reqr1))
                else Inr (Inr reqr1)))"

text \<open>
  The composite literal of lines 63 to 68: the three \<^verbatim>\<open>make\<close> calls in the order of
  the fields, each of which panics on a size that the run time refuses. The two slices
  are made with length 0.
\<close>

definition initRequester :: "RunConfig \<Rightarrow> fault + Requester" where
  "initRequester cfg =
     (if makechanPanics ptrSize (min (wrapInt (c cfg * 1000)) maxResult)
         \<or> makeslicePanics ptrSize 0 (nConns cfg)
         \<or> makeslicePanics stubSize 0 (nConns cfg)
      then Inl MakeSizeOutOfRange
      else Inr \<lparr>conns = Some [], stubs = [], handlers = [], mtd = None, config = cfg,
                resultsCap = min (wrapInt (c cfg * 1000)) maxResult,
                resultsClosed = False, reqCounter = 0, arrayJSONData = None\<rparr>)"

text \<open>
  Lines 70 to 103: the choice of the descriptor source. The last component of the result
  is the connection whose \<^verbatim>\<open>Close()\<close> has been deferred, if any.
\<close>

definition resolveDescriptor ::
  "'j env \<Rightarrow> Requester \<Rightarrow> world
     \<Rightarrow> (err + MethodDescriptor) \<times> Requester \<times> world \<times> conn option" where
  "resolveDescriptor ev reqr w =
     (let cfg = config reqr
      in if proto cfg \<noteq> [] then
           (getMethodDescFromProto ev (call cfg) (proto cfg) (importPaths cfg), reqr, w, None)
         else if protoset cfg \<noteq> [] then
           (getMethodDescFromProtoSet ev (call cfg) (protoset cfg), reqr, w, None)
         else
           (case newClientConn (dialContext ev) False reqr w of
              (Inl e, reqr', w') \<Rightarrow> (Inl e, reqr', w', None)
            | (Inr cc, reqr', w') \<Rightarrow>
                (getMethodDescFromReflect ev (call cfg) cc (reflectMetadata cfg),
                 reqr', w', Some cc)))"

text \<open>
  \<^verbatim>\<open>newRequester\<close>. The deferred \<^verbatim>\<open>cc.Close()\<close> of the reflection branch runs on
  every return, and on a panic, that follows the successful dial.
\<close>

definition newRequester ::
  "'j env \<Rightarrow> RunConfig \<Rightarrow> world \<Rightarrow> (fault + (err + Requester)) \<times> world" where
  "newRequester ev cfg w =
     (case initRequester cfg of
        Inl f \<Rightarrow> (Inl f, w)
      | Inr reqr \<Rightarrow>
          (case resolveDescriptor ev reqr w of
             (res, reqr', w', deferred) \<Rightarrow>
               (fillRequester ev reqr' res,
                (case deferred of
                   None \<Rightarrow> w'
                 | Some cc \<Rightarrow> w'\<lparr>closeLog := closeLog w' @ [cc]\<rparr>))))"

subsection \<open>The constant-concurrency worker pool\<close>

text \<open>
  A channel that carries stop notifications is modelled by the operations done on it, in
  order. A nil channel is \<open>None\<close>.
\<close>

datatype chanOp = Send | Close

text \<open>
  The fields of the \<^verbatim>\<open>Worker\<close> literal of line 345. The pointer to the shared request
  counter is the field \<open>counter\<close> of the pool below.
\<close>

record Worker =
  stub :: stub
  wmtd :: "MethodDescriptor option"
  wconfig :: RunConfig
  workerID :: string
  warrayJSONData :: "string list option"
  active :: bool
  wdone :: "chanOp list option"

text \<open>The goroutine that runs one worker: its completed-request count and its return.\<close>

record run =
  reqCount :: int
  finished :: bool

text \<open>
  The state of one call of \<^verbatim>\<open>runConstConcurrencyWorkers\<close>. A \<^verbatim>\<open>*Worker\<close> is an
  index into \<open>objs\<close>; \<open>workers\<close> is the Go map from worker ID to pointer; goroutine
  \<open>i\<close> of \<open>runs\<close> runs worker object \<open>i\<close>; \<open>errC\<close> holds the values the worker
  goroutines have sent; \<open>nReqPerWorker\<close> is the captured variable of that name.
\<close>

record pool =
  objs :: "Worker list"
  workers :: "(string \<times> nat) list"
  runs :: "run list"
  errC :: "err option list"
  counter :: int
  nReqPerWorker :: int

text \<open>\<^verbatim>\<open>strconv.Itoa\<close>: decimal digits, most significant first, a minus sign if negative.\<close>

fun itoaNat :: "nat \<Rightarrow> string" where
  "itoaNat k = (if k < 10 then [char_of (48 + k)]
                else itoaNat (k div 10) @ [char_of (48 + k mod 10)])"

declare itoaNat.simps [simp del]

definition Itoa :: "int \<Rightarrow> string" where
  "Itoa i = (if i < 0 then CHR ''-'' # itoaNat (nat (- i)) else itoaNat (nat i))"

text \<open>Lines 334 to 338: the identity of worker \<open>i\<close> on connection \<open>k\<close>.\<close>

definition workerIDOf :: "RunConfig \<Rightarrow> int \<Rightarrow> int \<Rightarrow> string" where
  "workerIDOf cfg i k =
     (let wID = ''g'' @ Itoa i @ ''c'' @ Itoa k
      in if length (name cfg) > 0 then name cfg @ '':'' @ wID else wID)"

text \<open>
  Go's integer division: a zero divisor panics, the quotient is truncated toward zero.
\<close>

definition goDiv :: "int \<Rightarrow> int \<Rightarrow> fault + int" where
  "goDiv a b =
     (if b = 0 then Inl IntegerDivideByZero
      else Inr (wrapInt (sgn a * sgn b * (\<bar>a\<bar> div \<bar>b\<bar>))))"

text \<open>
  The loop of lines 331 to 371, with concurrency counter \<open>i\<close> and connection counter
  \<open>k\<close> (the source's \<open>n\<close>). Indexing \<^verbatim>\<open>b.stubs[n]\<close> out of range panics.
\<close>

function createWorkers :: "Requester \<Rightarrow> int \<Rightarrow> int \<Rightarrow> pool \<Rightarrow> fault + pool" where
  "createWorkers b i k p =
     (if i < c (config b) then
        (if k < 0 \<or> int (length (stubs b)) \<le> k then Inl IndexOutOfRange
         else
           (let wID = workerIDOf (config b) i k;
                w = \<lparr>stub = stubs b ! nat k, wmtd = mtd b, wconfig = config b,
                     workerID = wID, warrayJSONData = arrayJSONData b,
                     active = True, wdone = Some []\<rparr>;
                ptr = length (objs p);
                k' = (if k + 1 = nConns (config b) then 0 else k + 1)
            in createWorkers b (i + 1) k'
                 (p\<lparr>objs := objs p @ [w],
                    workers := AList.update wID ptr (workers p),
                    runs := runs p @ [\<lparr>reqCount = 0, finished = False\<rparr>]\<rparr>)))
      else Inr p)"
  by pat_completeness auto
termination
  by (relation "measure (\<lambda>(b, i, k, p). nat (c (config b) - i))") auto

declare createWorkers.simps [simp del]

text \<open>The closure of line 367, the continuation predicate handed to every worker.\<close>

definition continueFn :: "int \<Rightarrow> string \<Rightarrow> err option \<Rightarrow> int \<Rightarrow> int \<Rightarrow> bool" where
  "continueFn perWorker wid er reqCnt duration = (reqCnt < perWorker)"

text \<open>\<^verbatim>\<open>wrk.done <- true\<close> and \<^verbatim>\<open>close(wrk.done)\<close>, each behind its nil check.\<close>

definition sendDone :: "Worker \<Rightarrow> fault + Worker" where
  "sendDone w =
     (case wdone w of
        None \<Rightarrow> Inr w
      | Some ops \<Rightarrow>
          if Close \<in> set ops then Inl SendOnClosedChannel
          else Inr (w\<lparr>wdone := Some (ops @ [Send])\<rparr>))"

definition closeDone :: "Worker \<Rightarrow> fault + Worker" where
  "closeDone w =
     (case wdone w of
        None \<Rightarrow> Inr w
      | Some ops \<Rightarrow>
          if Close \<in> set ops then Inl CloseOfClosedChannel
          else Inr (w\<lparr>wdone := Some (ops @ [Close])\<rparr>))"

text \<open>The body of the loop of \<^verbatim>\<open>finishWorkers\<close> (lines 386 to 392).\<close>

definition finishWorker :: "Worker \<Rightarrow> fault + Worker" where
  "finishWorker w = (if active w then sendDone (w\<lparr>active := False\<rparr>) else Inr w)"

text \<open>
  \<^verbatim>\<open>for _, wrk := range workers\<close>: the body runs once on the object behind every
  entry of the map, in the order of the list.
\<close>

fun rangeWorkers ::
  "(Worker \<Rightarrow> fault + Worker) \<Rightarrow> nat list \<Rightarrow> Worker list \<Rightarrow> fault + Worker list" where
  "rangeWorkers f [] os = Inr os"
| "rangeWorkers f (q # qs) os =
     (if q < length os then
        (case f (os ! q) of
           Inl e \<Rightarrow> Inl e
         | Inr w' \<Rightarrow> rangeWorkers f qs (os[q := w']))
      else Inl InvalidPointer)"

definition finishWorkers :: "pool \<Rightarrow> fault + pool" where
  "finishWorkers p =
     (case rangeWorkers finishWorker (map snd (workers p)) (objs p) of
        Inl e \<Rightarrow> Inl e
      | Inr os \<Rightarrow> Inr (p\<lparr>objs := os\<rparr>))"

definition closeWorkers :: "pool \<Rightarrow> fault + pool" where
  "closeWorkers p =
     (case rangeWorkers closeDone (map snd (workers p)) (objs p) of
        Inl e \<Rightarrow> Inl e
      | Inr os \<Rightarrow> Inr (p\<lparr>objs := os\<rparr>))"

text \<open>
  \<^verbatim>\<open>multierr.Append\<close> as the aggregator of line 378 uses it: nil is neutral, two
  errors are combined into one.
\<close>

fun multierrAppend :: "err option \<Rightarrow> err option \<Rightarrow> err option" where
  "multierrAppend None y = y"
| "multierrAppend x None = x"
| "multierrAppend (Some (Err a)) (Some (Err b)) = Some (Err (a @ ''; '' @ b))"

text \<open>
  What can happen while the pool runs. \<open>StopSignal\<close> and \<open>AllDone\<close> are the two cases of
  the \<^verbatim>\<open>select\<close> of line 397: a value on \<^verbatim>\<open>stop\<close>, and the aggregator's value on
  \<^verbatim>\<open>done\<close>, which exists once \<^verbatim>\<open>len(workers)\<close> values have arrived on
  \<^verbatim>\<open>errC\<close>. The other three are steps of the goroutine of the worker with the given
  index.
\<close>

datatype poolEvent =
    StopSignal
  | AllDone
  | IssueCall nat
  | WorkerReturns nat "err option"
  | Deactivate nat

definition stopPending :: "Worker \<Rightarrow> bool" where
  "stopPending w = (case wdone w of None \<Rightarrow> False | Some ops \<Rightarrow> Send \<in> set ops)"

definition mayContinue :: "pool \<Rightarrow> nat \<Rightarrow> bool" where
  "mayContinue p k =
     continueFn (nReqPerWorker p) (workerID (objs p ! k)) None (reqCount (runs p ! k)) 0"

text \<open>
  Modelled from the spec: \<^verbatim>\<open>runWorker\<close> and \<^verbatim>\<open>setActive\<close> are in worker.go, which
  is not among the sources. "Each worker's call loop continues while its own
  completed-count is below its quota; the global request counter is shared and
  incremented across all workers"; a stop notification "stops a worker from issuing its
  next call"; a worker "exposes thread-safe isActive()/setActive(bool)". So a worker
  issues one call at a time while its continuation predicate holds (\<open>IssueCall\<close>),
  returns when the predicate fails or a stop notification is on its channel
  (\<open>WorkerReturns\<close>, with the error it returns), and may mark itself inactive at any
  time (\<open>Deactivate\<close>). A worker does not mark itself active again and does not send
  on or close its own stop channel: in the sources only the creation loop calls
  \<^verbatim>\<open>setActive(true)\<close>, and only the pool sends on and closes that channel.
\<close>

definition workerStep :: "poolEvent \<Rightarrow> pool \<Rightarrow> pool" where
  "workerStep ev p =
     (case ev of
        IssueCall k \<Rightarrow>
          if k < length (runs p) \<and> k < length (objs p) \<and> \<not> finished (runs p ! k)
             \<and> mayContinue p k
          then p\<lparr>runs := (runs p)[k := (runs p ! k)\<lparr>reqCount := reqCount (runs p ! k) + 1\<rparr>],
                 counter := counter p + 1\<rparr>
          else p
      | WorkerReturns k e \<Rightarrow>
          if k < length (runs p) \<and> k < length (objs p) \<and> \<not> finished (runs p ! k)
             \<and> (\<not> mayContinue p k \<or> stopPending (objs p ! k))
          then p\<lparr>runs := (runs p)[k := (runs p ! k)\<lparr>finished := True\<rparr>],
                 errC := errC p @ [e]\<rparr>
          else p
      | Deactivate k \<Rightarrow>
          if k < length (objs p)
          then p\<lparr>objs := (objs p)[k := (objs p ! k)\<lparr>active := False\<rparr>]\<rparr>
          else p
      | _ \<Rightarrow> p)"



text \<open>
  One round of the loop of lines 396 to 412. The second component of the result is
  \<open>Some\<close> of the returned error once the function has returned. An event that cannot
  happen in the current state changes nothing.
\<close>

definition poolStep :: "poolEvent \<Rightarrow> pool \<Rightarrow> fault + (pool \<times> err option option)" where
  "poolStep ev p =
     (case ev of
        StopSignal \<Rightarrow>
          (case finishWorkers p of Inl f \<Rightarrow> Inl f | Inr p' \<Rightarrow> Inr (p', None))
      | AllDone \<Rightarrow>
          if length (workers p) \<le> length (errC p) then
            (case closeWorkers p of
               Inl f \<Rightarrow> Inl f
             | Inr p' \<Rightarrow>
                 Inr (p', Some (foldl multierrAppend None
                                  (take (length (workers p)) (errC p)))))
          else Inr (p, None)
      | _ \<Rightarrow> Inr (workerStep ev p, None))"

text \<open>
  The loop over a schedule of events: \<open>None\<close> in the result says that the function
  still waits in the \<^verbatim>\<open>select\<close> when the schedule ends.
\<close>

fun poolLoop :: "poolEvent list \<Rightarrow> pool \<Rightarrow> fault + (pool \<times> err option option)" where
  "poolLoop [] p = Inr (p, None)"
| "poolLoop (ev # es) p =
     (case poolStep ev p of
        Inl f \<Rightarrow> Inl f
      | Inr (p', Some r) \<Rightarrow> Inr (p', Some r)
      | Inr (p', None) \<Rightarrow> poolLoop es p')"

text \<open>
  Lines 319 to 371 of \<^verbatim>\<open>runConstConcurrencyWorkers\<close>: the division, the check of
  \<^verbatim>\<open>c == 0\<close> (which returns nil), \<^verbatim>\<open>make(chan error, c)\<close> (which panics on a
  size that the run time refuses), the creation of the workers.
\<close>

definition startPool :: "Requester \<Rightarrow> fault + (pool \<times> err option option)" where
  "startPool b =
     (case goDiv (n (config b)) (c (config b)) of
        Inl f \<Rightarrow> Inl f
      | Inr perWorker \<Rightarrow>
          (let p0 = \<lparr>objs = [], workers = [], runs = [], errC = [],
                     counter = reqCounter b, nReqPerWorker = perWorker\<rparr>
           in if c (config b) = 0 then Inr (p0, Some None)
              else if makechanPanics errorSize (c (config b)) then Inl MakeSizeOutOfRange
              else
                (case createWorkers b 0 0 p0 of
                   Inl f \<Rightarrow> Inl f
                 | Inr p \<Rightarrow> Inr (p, None))))"

definition runConstConcurrencyWorkers ::
  "poolEvent list \<Rightarrow> Requester \<Rightarrow> fault + (pool \<times> err option option)" where
  "runConstConcurrencyWorkers es b =
     (case startPool b of
        Inl f \<Rightarrow> Inl f
      | Inr (p, Some r) \<Rightarrow> Inr (p, Some r)
      | Inr (p, None) \<Rightarrow> poolLoop es p)"

subsection \<open>Run\<close>

text \<open>
  Modelled from the spec: \<^verbatim>\<open>StopReason\<close> is declared in another file, "an open
  enumeration with at least NormalEnd".
\<close>

datatype StopReason = ReasonNormalEnd | ReasonOther string

text \<open>
  Modelled from the spec: the reporter is in reporter.go, which is not among the sources.
  "Finalize(stopReason, elapsedDuration) gives the Report", and the reporter "signals its
  own completion" once the result pipeline is closed. Of the report only the stop reason
  is kept, and the wait of line 208 ends.
\<close>

record Report =
  endReason :: StopReason

text \<open>
  The state of one call of \<^verbatim>\<open>Run\<close> after the pool of connections is open.
  \<open>stopBuf\<close> counts the values buffered in \<^verbatim>\<open>stop\<close> (capacity 1), \<open>sendBlocked\<close>
  says that \<^verbatim>\<open>Run\<close> waits in \<^verbatim>\<open>stop <- true\<close> for room, \<open>doneBuf\<close> is the value
  buffered in \<^verbatim>\<open>done\<close>, \<open>launched\<close> says that the goroutine of line 167 has started,
  \<open>pl\<close> is the pool while \<^verbatim>\<open>runConstConcurrencyWorkers\<close> runs, \<open>crashed\<close> is the panic
  that ended the process, \<open>retval\<close> is what \<^verbatim>\<open>Run\<close> returned.
\<close>

record runState =
  rq :: Requester
  wd :: world
  stopReason :: StopReason
  stopBuf :: nat
  sendBlocked :: bool
  doneBuf :: "err option option"
  launched :: bool
  pl :: "pool option"
  crashed :: "fault option"
  retval :: "(Report option \<times> err option) option"

text \<open>
  What can happen while \<^verbatim>\<open>Run\<close> is in its loop: a stop request arrives on
  \<^verbatim>\<open>stopCh\<close> and the \<^verbatim>\<open>select\<close> takes it; the \<^verbatim>\<open>select\<close> takes the value of
  \<^verbatim>\<open>done\<close>; the goroutine of line 167 starts; the pool makes a step.
\<close>

datatype runEvent =
    StopRequest StopReason
  | DoneReceived
  | PoolStarts
  | PoolEvent poolEvent

text \<open>\<^verbatim>\<open>h.Ignore(true)\<close> for every handler (lines 189 to 191).\<close>

definition ignoreAll :: "Requester \<Rightarrow> Requester" where
  "ignoreAll b = b\<lparr>handlers := map (\<lambda>h. h\<lparr>ignore := True\<rparr>) (handlers b)\<rparr>"

text \<open>Lines 186 to 193: what follows \<^verbatim>\<open>stop <- true\<close>.\<close>

definition applyStopPolicy :: "runState \<Rightarrow> runState" where
  "applyStopPolicy st =
     (if zstop (config (rq st)) = ''close'' then
        (case closeClientConns (rq st) (wd st) of (b', w') \<Rightarrow> st\<lparr>rq := b', wd := w'\<rparr>)
      else if zstop (config (rq st)) = ''ignore'' then
        (case closeClientConns (ignoreAll (rq st)) (wd st) of
           (b', w') \<Rightarrow> st\<lparr>rq := b', wd := w'\<rparr>)
      else st)"

text \<open>Lines 181 to 193: the stop case of the \<^verbatim>\<open>select\<close>.\<close>

definition onStopRequest :: "StopReason \<Rightarrow> runState \<Rightarrow> runState" where
  "onStopRequest reason st =
     (let st1 = st\<lparr>stopReason := reason\<rparr>
      in if stopBuf st1 < 1 then applyStopPolicy (st1\<lparr>stopBuf := stopBuf st1 + 1\<rparr>)
         else st1\<lparr>sendBlocked := True\<rparr>)"

text \<open>
  Lines 194 to 218: the done case of the \<^verbatim>\<open>select\<close>. \<^verbatim>\<open>close(b.results)\<close> panics
  when the channel, which \<^verbatim>\<open>newRequester\<close> made, has been closed by an earlier call of
  \<^verbatim>\<open>Run\<close>; \<^verbatim>\<open>stop\<close> and \<^verbatim>\<open>done\<close> are channels of this call and are closed here
  only.
\<close>

definition onDone :: "err option \<Rightarrow> runState \<Rightarrow> runState" where
  "onDone er st =
     (if resultsClosed (rq st)
      then st\<lparr>doneBuf := None, crashed := Some CloseOfClosedChannel\<rparr>
      else
        (let report = \<lparr>endReason = stopReason st\<rparr>
         in case closeClientConns ((rq st)\<lparr>resultsClosed := True\<rparr>) (wd st) of
              (b', w') \<Rightarrow>
                st\<lparr>rq := b', wd := w', doneBuf := None,
                   retval := Some (Some report, er)\<rparr>))"

text \<open>
  The goroutine of lines 167 to 173 up to the loop of the pool. A panic in it ends the
  process.
\<close>

definition launchPool :: "runState \<Rightarrow> runState" where
  "launchPool st =
     (if loadStrategy (config (rq st)) = StrategyConcurrency
         \<and> loadSchedule (config (rq st)) = ScheduleConst
      then
        (case startPool (rq st) of
           Inl f \<Rightarrow> st\<lparr>launched := True, crashed := Some f\<rparr>
         | Inr (p, Some r) \<Rightarrow> st\<lparr>launched := True, doneBuf := Some r\<rparr>
         | Inr (p, None) \<Rightarrow> st\<lparr>launched := True, pl := Some p\<rparr>)
      else st\<lparr>launched := True\<rparr>)"

text \<open>
  A step of the running pool inside \<^verbatim>\<open>Run\<close>. The pool takes a stop signal only when
  one is buffered in \<^verbatim>\<open>stop\<close>; that makes room for a send that waits. When the pool
  returns, the goroutine sends the returned error on \<^verbatim>\<open>done\<close>.
\<close>

definition onPoolEvent :: "poolEvent \<Rightarrow> runState \<Rightarrow> runState" where
  "onPoolEvent ev st =
     (case pl st of
        None \<Rightarrow> st
      | Some p \<Rightarrow>
          if ev = StopSignal \<and> stopBuf st = 0 then st
          else
            (case poolStep ev p of
               Inl f \<Rightarrow> st\<lparr>crashed := Some f\<rparr>
             | Inr (p', r) \<Rightarrow>
                 (let st1 = (case r of
                               None \<Rightarrow> st\<lparr>pl := Some p'\<rparr>
                             | Some er \<Rightarrow>
                                 st\<lparr>pl := None, doneBuf := Some er,
                                    rq := (rq st)\<lparr>reqCounter := counter p'\<rparr>\<rparr>);
                      st2 = (if ev = StopSignal then st1\<lparr>stopBuf := stopBuf st1 - 1\<rparr>
                             else st1)
                  in if ev = StopSignal \<and> sendBlocked st2
                     then applyStopPolicy (st2\<lparr>stopBuf := stopBuf st2 + 1,
                                               sendBlocked := False\<rparr>)
                     else st2)))"

text \<open>
  One event of a run. Nothing happens after a panic or after \<^verbatim>\<open>Run\<close> has returned,
  and the \<^verbatim>\<open>select\<close> takes nothing while \<^verbatim>\<open>Run\<close> waits in \<^verbatim>\<open>stop <- true\<close>.
\<close>

definition runStep :: "runEvent \<Rightarrow> runState \<Rightarrow> runState" where
  "runStep ev st =
     (if crashed st \<noteq> None \<or> retval st \<noteq> None then st
      else
        (case ev of
           StopRequest reason \<Rightarrow> if sendBlocked st then st else onStopRequest reason st
         | DoneReceived \<Rightarrow>
             if sendBlocked st then st
             else (case doneBuf st of None \<Rightarrow> st | Some er \<Rightarrow> onDone er st)
         | PoolStarts \<Rightarrow> if launched st then st else launchPool st
         | PoolEvent pe \<Rightarrow> onPoolEvent pe st))"

text \<open>The loop of lines 179 to 220 over a schedule of events.\<close>

fun runLoop :: "runEvent list \<Rightarrow> runState \<Rightarrow> runState" where
  "runLoop [] st = st"
| "runLoop (ev # es) st = runLoop es (runStep ev st)"

text \<open>Lines 154 to 157: one stub per connection; \<^verbatim>\<open>cc[n]\<close> out of range panics.\<close>

function stubLoop :: "conn list \<Rightarrow> int \<Rightarrow> int \<Rightarrow> Requester \<Rightarrow> fault + Requester" where
  "stubLoop cc m i b =
     (if i < m then
        (if i < 0 \<or> int (length cc) \<le> i then Inl IndexOutOfRange
         else stubLoop cc m (i + 1) (b\<lparr>stubs := stubs b @ [NewStub (cc ! nat i)]\<rparr>))
      else Inr b)"
  by pat_completeness auto
termination
  by (relation "measure (\<lambda>(cc, m, i, b). nat (m - i))") auto

declare stubLoop.simps [simp del]

text \<open>
  \<^verbatim>\<open>Run\<close> over a schedule of events: the state when the schedule ends. \<open>retval\<close> is
  \<open>None\<close> while \<^verbatim>\<open>Run\<close> has not returned.
\<close>

definition Run :: "dialer \<Rightarrow> runEvent list \<Rightarrow> Requester \<Rightarrow> world \<Rightarrow> runState" where
  "Run dial es b w =
     (case openClientConns dial b w of
        (Inl connErr, b', w') \<Rightarrow>
          \<lparr>rq = b', wd = w', stopReason = ReasonNormalEnd, stopBuf = 0, sendBlocked = False,
           doneBuf = None, launched = False, pl = None, crashed = None,
           retval = Some (None, Some connErr)\<rparr>
      | (Inr cc, b', w') \<Rightarrow>
          (case stubLoop (elems cc) (nConns (config b')) 0 b' of
             Inl f \<Rightarrow>
               \<lparr>rq = b', wd = w', stopReason = ReasonNormalEnd, stopBuf = 0,
                sendBlocked = False, doneBuf = None, launched = False, pl = None,
                crashed = Some f, retval = None\<rparr>
           | Inr b'' \<Rightarrow>
               runLoop es
                 \<lparr>rq = b'', wd = w', stopReason = ReasonNormalEnd, stopBuf = 0,
                  sendBlocked = False, doneBuf = None, launched = False, pl = None,
                  crashed = None, retval = None\<rparr>))"

subsection \<open>Notions used to state and prove the properties\<close>



text \<open>The number that a string of decimal digits denotes.\<close>

definition digitsValue :: "string \<Rightarrow> nat" where
  "digitsValue s = foldl (\<lambda>a ch. 10 * a + (of_char ch - 48)) 0 s"

text \<open>
  Worker \<open>i\<close> as the spec describes it: bound to the stub of connection
  \<open>i mod nConns\<close>, named after \<open>i\<close> and that connection, active, with a fresh stop
  channel.
\<close>

definition workerOf :: "Requester \<Rightarrow> int \<Rightarrow> Worker" where
  "workerOf b i =
     \<lparr>stub = stubs b ! nat (i mod nConns (config b)), wmtd = mtd b, wconfig = config b,
      workerID = workerIDOf (config b) i (i mod nConns (config b)),
      warrayJSONData = arrayJSONData b, active = True, wdone = Some []\<rparr>"

text \<open>
  The state of the pool when the creation loop has made the workers below \<open>i\<close>: the map
  holds, for every worker object, its identity and its pointer; every worker is active
  with an unused stop channel, no goroutine has issued a call or returned.
\<close>

definition createdUpTo :: "RunConfig \<Rightarrow> int \<Rightarrow> pool \<Rightarrow> bool" where
  "createdUpTo cfg i p \<longleftrightarrow>
     0 \<le> i \<and> length (objs p) = nat i \<and> length (runs p) = nat i
     \<and> workers p = map (\<lambda>m. (workerID (objs p ! m), m)) [0..<nat i]
     \<and> list_all (\<lambda>m. \<exists>k. workerID (objs p ! m) = workerIDOf cfg (int m) k) [0..<nat i]
     \<and> list_all (\<lambda>w. active w \<and> wdone w = Some []) (objs p)
     \<and> list_all (\<lambda>r. reqCount r = 0 \<and> \<not> finished r) (runs p)
     \<and> errC p = []"

text \<open>
  The two states of a worker's stop channel while the pool runs: nothing has been sent, or
  one notification has been sent and the worker is inactive. And its two states once the
  pool has returned: closed, after at most one notification.
\<close>

definition atMostOneSignal :: "Worker \<Rightarrow> bool" where
  "atMostOneSignal w \<longleftrightarrow> wdone w = Some [] \<or> (wdone w = Some [Send] \<and> \<not> active w)"

definition closedAfterSignal :: "Worker \<Rightarrow> bool" where
  "closedAfterSignal w \<longleftrightarrow> wdone w = Some [Close] \<or> wdone w = Some [Send, Close]"

text \<open>What a stop signal does to one worker, as the spec says it.\<close>

definition signalIfActive :: "Worker \<Rightarrow> Worker" where
  "signalIfActive w = (if active w then w\<lparr>active := False, wdone := Some [Send]\<rparr> else w)"

text \<open>
  The running pool: the map points at every worker object once, and every stop channel
  has carried at most one notification.
\<close>

definition poolOk :: "pool \<Rightarrow> bool" where
  "poolOk p \<longleftrightarrow>
     map snd (workers p) = [0..<length (objs p)] \<and> list_all atMostOneSignal (objs p)"

text \<open>
  The running pool while no stop signal has arrived, for quota \<open>q\<close> and a request
  counter that started at \<open>c0\<close>: no stop notification is pending, every goroutine has
  completed at most \<open>q\<close> requests and exactly \<open>q\<close> if it has returned, the counter
  has advanced by the sum of the completed requests, and one value is on \<^verbatim>\<open>errC\<close>
  for every goroutine that has returned.
\<close>

definition quotaRun :: "int \<Rightarrow> int \<Rightarrow> pool \<Rightarrow> bool" where
  "quotaRun c0 q p \<longleftrightarrow>
     length (runs p) = length (objs p) \<and> length (workers p) = length (objs p)
     \<and> nReqPerWorker p = q
     \<and> list_all (\<lambda>w. \<not> stopPending w) (objs p)
     \<and> list_all (\<lambda>r. reqCount r \<le> q \<and> (finished r \<longrightarrow> reqCount r = q)) (runs p)
     \<and> counter p = c0 + sum_list (map reqCount (runs p))
     \<and> length (errC p) = length (filter finished (runs p))"


subsection \<open>Sample inputs\<close>

text \<open>
  Concrete inputs for the instances below: three workers over two connections, seven
  requests, a descriptor file, and an environment in which every dial succeeds and the
  JSON decoder accepts the array of two empty objects and the empty array and rejects
  everything else.
\<close>

definition sampleConfig :: RunConfig where
  "sampleConfig =
     \<lparr>call = ''helloworld.Greeter.SayHello'', host = ''localhost:50051'',
      proto = ''greeter.proto'', protoset = [], importPaths = [],
      n = 7, c = 3, nConns = 2, name = [], zstop = ''close'', binary = False,
      data = ''[{},{}]'', rmd = None, insecure = True, authority = [],
      keepaliveTime = 0, loadStrategy = StrategyConcurrency, loadSchedule = ScheduleConst\<rparr>"

definition sampleMethod :: MethodDescriptor where
  "sampleMethod = \<lparr>mtdName = ''SayHello'', isClientStreaming = False\<rparr>"

definition sampleUnmarshal :: "string \<Rightarrow> err + string list" where
  "sampleUnmarshal s =
     (if s = ''[{},{}]'' then Inr [''{}'', ''{}'']
      else if s = ''[]'' then Inr []
      else Inl (Err ''json: cannot unmarshal''))"

definition sampleEnv :: "string env" where
  "sampleEnv =
     \<lparr>getMethodDescFromProto = (\<lambda>cl pr ips. Inr sampleMethod),
      getMethodDescFromProtoSet = (\<lambda>cl ps. Inr sampleMethod),
      getMethodDescFromReflect = (\<lambda>cl cc md. Inr sampleMethod),
      newMessageIsNil = (\<lambda>m. False),
      jsonUnmarshal = sampleUnmarshal,
      jsonMarshal = (\<lambda>j. Inr j),
      dialContext = (\<lambda>k. None)\<rparr>"

definition noWorld :: world where
  "noWorld = \<lparr>dialLog = [], closeLog = []\<rparr>"

text \<open>The requester that \<^verbatim>\<open>newRequester\<close> builds for the sample configuration.\<close>

definition sampleRequester :: Requester where
  "sampleRequester =
     \<lparr>conns = Some [], stubs = [], handlers = [], mtd = Some sampleMethod,
      config = sampleConfig, resultsCap = 3000, resultsClosed = False, reqCounter = 0,
      arrayJSONData = Some [''{}'', ''{}'']\<rparr>"

text \<open>
  The sample configuration without a descriptor file or set (so that reflection is used),
  with a payload that is an array of a number, with the sample payload after a blank, and
  with the empty array as payload.
\<close>

definition reflectConfig :: RunConfig where
  "reflectConfig = sampleConfig\<lparr>proto := []\<rparr>"







text \<open>A dialer whose second attempt fails, and one whose every attempt fails.\<close>

definition failSecond :: dialer where
  "failSecond k = (if k = 1 then Some (Err ''connection refused'') else None)"

definition failAll :: dialer where
  "failAll k = Some (Err ''connection refused'')"

text \<open>
  The sample requester after an open whose second dial failed, the outcome of the call
  of \<^verbatim>\<open>openClientConns\<close> that follows it, and the outcome of an open on the fresh
  sample requester when every dial succeeds.
\<close>

definition afterFailedOpen :: "Requester \<times> world" where
  "afterFailedOpen = snd (openClientConns failSecond sampleRequester noWorld)"

definition afterRetry :: "(err + conn list option) \<times> Requester \<times> world" where
  "afterRetry = openClientConns failSecond (fst afterFailedOpen) (snd afterFailedOpen)"

definition openedSample :: "(err + conn list option) \<times> Requester \<times> world" where
  "openedSample = openClientConns (\<lambda>k. None) sampleRequester noWorld"

text \<open>
  The sample requester when \<^verbatim>\<open>Run\<close> has opened its two connections and made their
  stubs, and the pool that \<^verbatim>\<open>runConstConcurrencyWorkers\<close> creates for it.
\<close>

definition readyRequester :: Requester where
  "readyRequester =
     sampleRequester\<lparr>conns := Some [0, 1], stubs := [NewStub 0, NewStub 1],
                     handlers := [\<lparr>hid = 0, ignore = False\<rparr>, \<lparr>hid = 1, ignore = False\<rparr>]\<rparr>"

definition samplePool :: pool where
  "samplePool =
     \<lparr>objs = [workerOf readyRequester 0, workerOf readyRequester 1, workerOf readyRequester 2],
      workers = [(''g0c0'', 0), (''g1c1'', 1), (''g2c0'', 2)],
      runs = [\<lparr>reqCount = 0, finished = False\<rparr>, \<lparr>reqCount = 0, finished = False\<rparr>,
              \<lparr>reqCount = 0, finished = False\<rparr>],
      errC = [], counter = 0, nReqPerWorker = 2\<rparr>"

text \<open>
  A schedule of the pool on which worker 1 exhausts its quota and marks itself inactive
  before the first of two stop signals arrives, and one without a stop signal on which
  every worker exhausts its quota.
\<close>

definition stopSchedule :: "poolEvent list" where
  "stopSchedule =
     [IssueCall 1, IssueCall 1, Deactivate 1, IssueCall 0, StopSignal, IssueCall 2,
      StopSignal, WorkerReturns 0 None, WorkerReturns 1 None, WorkerReturns 2 None,
      AllDone]"

definition quotaSchedule :: "poolEvent list" where
  "quotaSchedule =
     [IssueCall 0, IssueCall 1, IssueCall 0, IssueCall 2, IssueCall 0, IssueCall 1,
      WorkerReturns 0 None, IssueCall 2, WorkerReturns 2 None, AllDone,
      WorkerReturns 1 None, AllDone]"


definition otherStrategyRequester :: Requester where
  "otherStrategyRequester =
     sampleRequester\<lparr>config := sampleConfig\<lparr>loadStrategy := StrategyOther 1\<rparr>\<rparr>"

definition stoppedRun :: "runEvent list" where
  "stoppedRun =
     [PoolStarts, PoolEvent (IssueCall 1), PoolEvent (IssueCall 1),
      StopRequest (ReasonOther ''timeout''), PoolEvent StopSignal,
      PoolEvent (WorkerReturns 0 None), PoolEvent (WorkerReturns 1 None),
      PoolEvent (WorkerReturns 2 None), PoolEvent AllDone, DoneReceived]"

definition stopOnlyRun :: "runEvent list" where
  "stopOnlyRun =
     [PoolStarts, StopRequest (ReasonOther ''timeout''), DoneReceived,
      PoolEvent AllDone, StopRequest (ReasonOther ''again''), DoneReceived]"




section \<open>Properties\<close>

subsection \<open>Helper facts about slices and the connection pool\<close>

lemma elems_append1 [simp]: "elems (append1 s x) = elems s @ [x]"
  by (simp add: elems_def append1_def split: option.splits)

lemma len_elems: "len s = int (length (elems s))"
  by (simp add: len_def elems_def split: option.splits)

lemma newClientConn_True:
  "newClientConn dial True b w =
     ((case dial (length (dialLog w)) of Some e \<Rightarrow> Inl e | None \<Rightarrow> Inr (length (dialLog w))),
      b\<lparr>handlers := handlers b @ [\<lparr>hid = int (length (handlers b)), ignore = False\<rparr>]\<rparr>,
      w\<lparr>dialLog := dialLog w @ [dialOptions (config b)
             @ [WithStatsHandler (int (length (handlers b))), WithDefaultCallOptions]]\<rparr>)"
  by (simp add: newClientConn_def Let_def split: option.splits)

lemma openLoop_fails:
  "int d < m - i \<Longrightarrow> dial (length (dialLog w) + d) = Some e \<Longrightarrow>
   \<forall>j<d. dial (length (dialLog w) + j) = None \<Longrightarrow>
   (case openLoop dial m i b w of (r, b', w') \<Rightarrow>
      r = Inl e
      \<and> elems (conns b') = elems (conns b) @ [length (dialLog w) ..< length (dialLog w) + d]
      \<and> length (dialLog w') = length (dialLog w) + d + 1
      \<and> closeLog w' = closeLog w)"
proof (induction d arbitrary: i b w)
  case 0
  then show ?case
    by (subst openLoop.simps) (simp add: newClientConn_True)
next
  case (Suc d)
  let ?k = "length (dialLog w)"
  have d0: "dial ?k = None"
    using Suc.prems(3) by (metis add.right_neutral zero_less_Suc)
  let ?b = "b\<lparr>handlers := handlers b @ [\<lparr>hid = int (length (handlers b)), ignore = False\<rparr>]\<rparr>
             \<lparr>conns := append1 (conns b) ?k\<rparr>"
  let ?w = "w\<lparr>dialLog := dialLog w @ [dialOptions (config b)
             @ [WithStatsHandler (int (length (handlers b))), WithDefaultCallOptions]]\<rparr>"
  have step: "openLoop dial m i b w = openLoop dial m (i + 1) ?b ?w"
    using Suc.prems(1) d0 by (subst openLoop.simps) (simp add: newClientConn_True)
  have ih: "(case openLoop dial m (i + 1) ?b ?w of (r, b', w') \<Rightarrow>
      r = Inl e
      \<and> elems (conns b') = elems (conns ?b) @ [length (dialLog ?w) ..< length (dialLog ?w) + d]
      \<and> length (dialLog w') = length (dialLog ?w) + d + 1
      \<and> closeLog w' = closeLog ?w)"
  proof (rule Suc.IH)
    show "int d < m - (i + 1)" using Suc.prems(1) by simp
    show "dial (length (dialLog ?w) + d) = Some e" using Suc.prems(2) by simp
    show "\<forall>j<d. dial (length (dialLog ?w) + j) = None"
    proof (intro allI impI)
      fix j assume "j < d"
      then have "Suc j < Suc d" by simp
      with Suc.prems(3) have "dial (length (dialLog w) + Suc j) = None" by blast
      then show "dial (length (dialLog ?w) + j) = None" by simp
    qed
  qed
  obtain r b' w' where eq: "openLoop dial m (i + 1) ?b ?w = (r, b', w')"
    by (cases "openLoop dial m (i + 1) ?b ?w") auto
  from ih show ?case unfolding step eq
    by (simp del: upt_Suc add: upt_conv_Cons [of "length (dialLog w)"])
qed

lemma openLoop_Inr:
  "openLoop dial m i b w = (Inr cs, b', w') \<Longrightarrow>
   cs = conns b' \<and> config b' = config b
   \<and> len (conns b') = len (conns b) + (if i < m then m - i else 0)"
proof (induction dial m i b w rule: openLoop.induct)
  case (1 dial m i b w)
  show ?case
  proof (cases "i < m")
    case False
    with "1.prems" show ?thesis by (auto simp: openLoop.simps)
  next
    case True
    show ?thesis
    proof (cases "dial (length (dialLog w))")
      case (Some e)
      with True "1.prems" show ?thesis
        by (simp add: openLoop.simps newClientConn_True)
    next
      case None
      let ?b = "b\<lparr>handlers := handlers b @ [\<lparr>hid = int (length (handlers b)), ignore = False\<rparr>]\<rparr>"
      let ?w = "w\<lparr>dialLog := dialLog w @ [dialOptions (config b)
             @ [WithStatsHandler (int (length (handlers b))), WithDefaultCallOptions]]\<rparr>"
      have nc: "newClientConn dial True b w = (Inr (length (dialLog w)), ?b, ?w)"
        using None by (simp add: newClientConn_True)
      have rec: "openLoop dial m (i + 1) (?b\<lparr>conns := append1 (conns ?b) (length (dialLog w))\<rparr>) ?w
                 = (Inr cs, b', w')"
        using "1.prems" True nc by (subst (asm) openLoop.simps) simp
      from "1.IH"[OF True nc [symmetric] refl refl rec] True
      show ?thesis by (auto simp: len_elems)
    qed
  qed
qed

lemma closeClientConns_twice:
  "closeClientConns (fst (closeClientConns b w)) (snd (closeClientConns b w))
   = closeClientConns b w"
  by (simp add: closeClientConns_def split: option.splits)


lemmas sample_defs =
  sampleRequester_def sampleConfig_def sampleMethod_def noWorld_def failSecond_def
  failAll_def

lemma afterFailedOpen_eval:
  "openClientConns failSecond sampleRequester noWorld =
     (Inl (Err ''connection refused''),
      sampleRequester\<lparr>handlers := [\<lparr>hid = 0, ignore = False\<rparr>, \<lparr>hid = 1, ignore = False\<rparr>],
                      conns := Some [0]\<rparr>,
      \<lparr>dialLog = [[WithInsecure, WithStatsHandler 0, WithDefaultCallOptions],
                  [WithInsecure, WithStatsHandler 1, WithDefaultCallOptions]],
       closeLog = []\<rparr>)"
  by (simp add: openClientConns_def openLoop.simps newClientConn_True sample_defs len_def
      append1_def dialOptions_def)

subsection \<open>A concurrency of zero\<close>

text \<open>
  C1. If the configured concurrency \<open>c\<close> is 0, the pool does nothing and reports no
  error. The code divides \<open>n\<close> by \<open>c\<close> on line 319, before the check of
  \<open>c == 0\<close> on line 321: for every requester whose \<open>c\<close> is 0 and every schedule the
  function panics with an integer division by zero, and so does the goroutine that
  \<^verbatim>\<open>Run\<close> starts.
\<close>

theorem runConstConcurrencyWorkers_zero_c_panics:
  assumes "c (config b) = 0"
  shows "runConstConcurrencyWorkers es b = Inl IntegerDivideByZero
         \<and> startPool b = Inl IntegerDivideByZero"
  using assms by (simp add: runConstConcurrencyWorkers_def startPool_def goDiv_def)

theorem runConstConcurrencyWorkers_zero_c_panics_witness:
  "c (config (sampleRequester\<lparr>config := sampleConfig\<lparr>c := 0\<rparr>\<rparr>)) = 0
   \<and> runConstConcurrencyWorkers [] (sampleRequester\<lparr>config := sampleConfig\<lparr>c := 0\<rparr>\<rparr>)
       = Inl IntegerDivideByZero"
  using runConstConcurrencyWorkers_zero_c_panics
          [of "sampleRequester\<lparr>config := sampleConfig\<lparr>c := 0\<rparr>\<rparr>" "[]"]
  by simp

text \<open>
  With \<open>c = 0\<close> and the constant strategy the goroutine that \<^verbatim>\<open>Run\<close> starts panics
  in the division, so \<^verbatim>\<open>Run\<close> does not return.
\<close>

lemma launchPool_zero_c_panics:
  assumes "c (config (rq st)) = 0"
    and "loadStrategy (config (rq st)) = StrategyConcurrency"
    and "loadSchedule (config (rq st)) = ScheduleConst"
  shows "launchPool st = st\<lparr>launched := True, crashed := Some IntegerDivideByZero\<rparr>"
  using assms by (simp add: launchPool_def startPool_def goDiv_def)

lemma Run_zero_c_sample:
  "crashed (Run (\<lambda>k. None) [PoolStarts, DoneReceived]
              (sampleRequester\<lparr>config := sampleConfig\<lparr>c := 0\<rparr>\<rparr>) noWorld)
     = Some IntegerDivideByZero"
  "retval (Run (\<lambda>k. None) [PoolStarts, DoneReceived]
              (sampleRequester\<lparr>config := sampleConfig\<lparr>c := 0\<rparr>\<rparr>) noWorld) = None"
  by code_simp+

subsection \<open>A failed dial\<close>

text \<open>
  C2 (as amended). If a dial of \<^verbatim>\<open>openClientConns\<close> fails, the operation stops at that
  dial and returns its error, \<^verbatim>\<open>Run\<close> returns that error, no connection is closed,
  and the requester keeps the connections dialed before the failure, appended to the
  ones it held.
\<close>

theorem openClientConns_dial_failure_keeps_prefix:
  assumes "len (conns b) \<noteq> nConns (config b)"
    and "int d < nConns (config b)"
    and "dial (length (dialLog w) + d) = Some e"
    and "\<forall>j<d. dial (length (dialLog w) + j) = None"
  shows "(case openClientConns dial b w of (r, b', w') \<Rightarrow>
            r = Inl e
            \<and> elems (conns b') = elems (conns b) @ [length (dialLog w) ..< length (dialLog w) + d]
            \<and> length (dialLog w') = length (dialLog w) + d + 1
            \<and> closeLog w' = closeLog w)
         \<and> retval (Run dial es b w) = Some (None, Some e)"
proof -
  have "int d < nConns (config b) - 0" using assms(2) by simp
  from openLoop_fails [OF this assms(3) assms(4), of b]
  have loop: "case openLoop dial (nConns (config b)) 0 b w of (r, b', w') \<Rightarrow>
      r = Inl e
      \<and> elems (conns b') = elems (conns b) @ [length (dialLog w) ..< length (dialLog w) + d]
      \<and> length (dialLog w') = length (dialLog w) + d + 1
      \<and> closeLog w' = closeLog w" .
  have eq: "openClientConns dial b w = openLoop dial (nConns (config b)) 0 b w"
    using assms(1) by (simp add: openClientConns_def)
  obtain r b' w' where res: "openLoop dial (nConns (config b)) 0 b w = (r, b', w')"
    by (cases "openLoop dial (nConns (config b)) 0 b w") auto
  from loop res have r: "r = Inl e" by simp
  have "retval (Run dial es b w) = Some (None, Some e)"
    by (simp add: Run_def eq res r)
  with loop show ?thesis by (simp add: eq)
qed

theorem openClientConns_dial_failure_keeps_prefix_witness:
  "len (conns sampleRequester) \<noteq> nConns (config sampleRequester)
   \<and> failSecond 1 = Some (Err ''connection refused'') \<and> failSecond 0 = None
   \<and> fst (openClientConns failSecond sampleRequester noWorld) = Inl (Err ''connection refused'')
   \<and> elems (conns (fst (snd (openClientConns failSecond sampleRequester noWorld)))) = [0]
   \<and> retval (Run failSecond [] sampleRequester noWorld)
       = Some (None, Some (Err ''connection refused''))"
proof -
  have h1: "len (conns sampleRequester) \<noteq> nConns (config sampleRequester)"
    by (simp add: sample_defs len_def)
  have h2: "int 1 < nConns (config sampleRequester)" by (simp add: sample_defs)
  have h3: "failSecond (length (dialLog noWorld) + 1) = Some (Err ''connection refused'')"
    by (simp add: sample_defs)
  have h4: "\<forall>j<1. failSecond (length (dialLog noWorld) + j) = None"
    by (simp add: sample_defs)
  have e0: "elems (conns sampleRequester) = []"
    by (simp add: sampleRequester_def elems_def)
  have l0: "length (dialLog noWorld) = 0" by (simp add: noWorld_def)
  have f1: "failSecond 1 = Some (Err ''connection refused'')" by (simp add: failSecond_def)
  have f0: "failSecond 0 = None" by (simp add: failSecond_def)
  from openClientConns_dial_failure_keeps_prefix [OF h1 h2 h3 h4, of "[]"]
  show ?thesis using h1 f1 f0 by (simp add: e0 l0 split_beta)
qed

theorem openClientConns_partial_pool_counterexample:
  "fst (openClientConns failSecond sampleRequester noWorld) = Inl (Err ''connection refused'')
   \<and> conns (fst (snd (openClientConns failSecond sampleRequester noWorld))) = Some [0]
   \<and> closeLog (snd (snd (openClientConns failSecond sampleRequester noWorld))) = []"
  by (simp add: afterFailedOpen_eval)

subsection \<open>Opening and closing twice\<close>

lemma closeClientConns_empty:
  "len (conns b) = 0 \<Longrightarrow> closeClientConns b w = (b\<lparr>conns := None\<rparr>, w)"
  by (cases "conns b") (simp_all add: closeClientConns_def len_def)

lemma openClientConns_full:
  "len (conns b) = nConns (config b) \<Longrightarrow> openClientConns dial b w = (Inr (conns b), b, w)"
  by (simp add: openClientConns_def)

lemma openClientConns_again:
  assumes "len (conns b) = 0 \<or> len (conns b) = nConns (config b)"
    and "openClientConns dial b w = (Inr cs, b1, w1)"
  shows "openClientConns dial' b1 w1 = (Inr cs, b1, w1)"
proof (cases "len (conns b) = nConns (config b)")
  case True
  with assms(2) have "cs = conns b" "b1 = b" "w1 = w"
    by (auto simp: openClientConns_def)
  with True show ?thesis by (simp add: openClientConns_def)
next
  case False
  with assms(1) have l0: "len (conns b) = 0" by simp
  from False assms(2) have "openLoop dial (nConns (config b)) 0 b w = (Inr cs, b1, w1)"
    by (simp add: openClientConns_def)
  from openLoop_Inr [OF this]
  have cs: "cs = conns b1" and cfg: "config b1 = config b"
    and l1: "len (conns b1) = len (conns b) + (if 0 < nConns (config b) then nConns (config b) - 0 else 0)"
    by simp_all
  show ?thesis
  proof (cases "0 < nConns (config b)")
    case True
    with l1 l0 have "len (conns b1) = nConns (config b1)" by (simp add: cfg)
    then show ?thesis by (simp add: openClientConns_def cs)
  next
    case neg: False
    then have "openLoop dial' (nConns (config b1)) 0 b1 w1 = (Inr (conns b1), b1, w1)"
      by (simp add: openLoop.simps cfg)
    then show ?thesis by (simp add: openClientConns_def cs)
  qed
qed

lemma openedSample_eval:
  "openClientConns (\<lambda>k. None) sampleRequester noWorld =
     (Inr (Some [0, 1]),
      sampleRequester\<lparr>handlers := [\<lparr>hid = 0, ignore = False\<rparr>, \<lparr>hid = 1, ignore = False\<rparr>],
                      conns := Some [0, 1]\<rparr>,
      \<lparr>dialLog = [[WithInsecure, WithStatsHandler 0, WithDefaultCallOptions],
                  [WithInsecure, WithStatsHandler 1, WithDefaultCallOptions]],
       closeLog = []\<rparr>)"
  by (simp add: openClientConns_def openLoop.simps newClientConn_True sample_defs len_def
      append1_def dialOptions_def)

lemma afterRetry_eval:
  "afterRetry =
     (Inr (Some [0, 2, 3]),
      sampleRequester\<lparr>handlers := [\<lparr>hid = 0, ignore = False\<rparr>, \<lparr>hid = 1, ignore = False\<rparr>,
                                   \<lparr>hid = 2, ignore = False\<rparr>, \<lparr>hid = 3, ignore = False\<rparr>],
                      conns := Some [0, 2, 3]\<rparr>,
      \<lparr>dialLog = [[WithInsecure, WithStatsHandler 0, WithDefaultCallOptions],
                  [WithInsecure, WithStatsHandler 1, WithDefaultCallOptions],
                  [WithInsecure, WithStatsHandler 2, WithDefaultCallOptions],
                  [WithInsecure, WithStatsHandler 3, WithDefaultCallOptions]],
       closeLog = []\<rparr>)"
  by (simp add: afterRetry_def afterFailedOpen_def afterFailedOpen_eval)
     (simp add: openClientConns_def openLoop.simps newClientConn_True sample_defs len_def
      append1_def dialOptions_def)

text \<open>
  C3 (as amended). A call of \<^verbatim>\<open>openClientConns\<close> on a pool that holds exactly
  \<open>nConns\<close> connections returns them, dials nothing and changes nothing; after a call
  that succeeded on a pool that was empty (fresh or cleared) or full, a second call,
  whatever the dialer would do, returns the identical connection set and leaves the
  requester and the network untouched. \<^verbatim>\<open>closeClientConns\<close> on an empty or cleared pool
  closes nothing, and two calls in a row do what one does; it has no way to fail.
\<close>

theorem pool_open_close_idempotent:
  assumes "len (conns b) = 0 \<or> len (conns b) = nConns (config b)"
    and "openClientConns dial b w = (Inr cs, b1, w1)"
  shows "openClientConns dial' b1 w1 = (Inr cs, b1, w1)
         \<and> (len (conns b2) = nConns (config b2)
              \<longrightarrow> openClientConns dial' b2 w2 = (Inr (conns b2), b2, w2))
         \<and> (len (conns b2) = 0 \<longrightarrow> closeClientConns b2 w2 = (b2\<lparr>conns := None\<rparr>, w2))
         \<and> closeClientConns (fst (closeClientConns b2 w2)) (snd (closeClientConns b2 w2))
             = closeClientConns b2 w2"
  using openClientConns_again [OF assms] closeClientConns_empty [of b2 w2]
    openClientConns_full [of b2 dial' w2] closeClientConns_twice [of b2 w2]
  by simp

theorem pool_open_close_idempotent_witness:
  "len (conns sampleRequester) = 0
   \<and> fst openedSample = Inr (Some [0, 1])
   \<and> openClientConns failAll (fst (snd openedSample)) (snd (snd openedSample)) = openedSample
   \<and> len (conns (fst (snd openedSample))) = nConns (config (fst (snd openedSample)))
   \<and> closeClientConns sampleRequester noWorld = (sampleRequester\<lparr>conns := None\<rparr>, noWorld)"
proof -
  have h1: "len (conns sampleRequester) = 0 \<or> len (conns sampleRequester) = nConns (config sampleRequester)"
    by (simp add: sampleRequester_def len_def)
  have h2: "openClientConns (\<lambda>k. None) sampleRequester noWorld
            = (Inr (Some [0, 1]), fst (snd openedSample), snd (snd openedSample))"
    by (simp add: openedSample_def openedSample_eval)
  have l0: "len (conns sampleRequester) = 0" by (simp add: sampleRequester_def len_def)
  have l2: "len (conns (fst (snd openedSample))) = nConns (config (fst (snd openedSample)))"
    by (simp add: openedSample_def openedSample_eval)
       (simp add: len_def sampleRequester_def sampleConfig_def)
  have o: "openedSample = (Inr (Some [0, 1]), fst (snd openedSample), snd (snd openedSample))"
    using h2 by (simp add: openedSample_def)
  have f: "fst openedSample = Inr (Some [0, 1])"
    by (simp add: openedSample_def openedSample_eval)
  from pool_open_close_idempotent [OF h1 h2, of failAll sampleRequester noWorld]
  have "openClientConns failAll (fst (snd openedSample)) (snd (snd openedSample)) = openedSample"
    and "closeClientConns sampleRequester noWorld = (sampleRequester\<lparr>conns := None\<rparr>, noWorld)"
    using o l0 by simp_all
  with l0 l2 f show ?thesis by simp
qed

theorem openClientConns_after_failed_open_counterexample:
  "fst afterRetry = Inr (Some [0, 2, 3])
   \<and> fst (openClientConns failSecond (fst (snd afterRetry)) (snd (snd afterRetry)))
       = Inr (Some [0, 2, 3, 4, 5])"
  by (simp add: afterRetry_eval)
     (simp add: openClientConns_def openLoop.simps newClientConn_True sample_defs len_def
      append1_def dialOptions_def)

subsection \<open>Helper facts about construction\<close>

lemma newClientConn_False:
  "newClientConn dial False b w =
     ((case dial (length (dialLog w)) of Some e \<Rightarrow> Inl e | None \<Rightarrow> Inr (length (dialLog w))),
      b, w\<lparr>dialLog := dialLog w @ [dialOptions (config b) @ [WithDefaultCallOptions]]\<rparr>)"
  by (simp add: newClientConn_def Let_def split: option.splits)

lemma dialOptions_no_stats: "WithStatsHandler h \<notin> set (dialOptions cfg @ [WithDefaultCallOptions])"
  by (simp add: dialOptions_def)

lemmas size_defs =
  makechanPanics_def makeslicePanics_def maxAlloc_def hchanSize_def ptrSize_def
  errorSize_def stringSize_def stubSize_def

lemma initRequester_fields:
  "initRequester cfg = Inr r0 \<Longrightarrow>
   config r0 = cfg \<and> conns r0 = Some [] \<and> handlers r0 = [] \<and> stubs r0 = []"
  by (auto simp: initRequester_def split: if_splits)

text \<open>
  A capacity that the run time refuses: \<^verbatim>\<open>newRequester\<close> panics in its composite
  literal, before it consults a descriptor source.
\<close>

lemma newRequester_refuses_large_capacity:
  "newRequester ev (sampleConfig\<lparr>nConns := 2 ^ 62\<rparr>) w = (Inl MakeSizeOutOfRange, w)"
  by (simp add: newRequester_def initRequester_def sampleConfig_def wrapInt_def maxResult_def
      size_defs)

lemma newRequester_literal_panics:
  "initRequester cfg = Inl f \<Longrightarrow> newRequester ev cfg w = (Inl f, w)"
  by (simp add: newRequester_def)

lemma fillRequester_Inl: "fillRequester ev r0 (Inl e) = Inr (Inl e)"
  by (simp add: fillRequester_def)

lemma fillRequester_Inr_fields:
  "fillRequester ev r0 res = Inr (Inr r) \<Longrightarrow>
   (\<exists>m. res = Inr m \<and> mtd r = Some m) \<and> conns r = conns r0 \<and> handlers r = handlers r0
   \<and> stubs r = stubs r0"
  by (auto simp: fillRequester_def Let_def split: sum.splits if_splits)




lemma newRequester_proto:
  "initRequester cfg = Inr r0 \<Longrightarrow> proto cfg \<noteq> [] \<Longrightarrow>
   newRequester ev cfg w =
     (fillRequester ev r0
        (getMethodDescFromProto ev (call cfg) (proto cfg) (importPaths cfg)), w)"
  by (frule initRequester_fields) (simp add: newRequester_def resolveDescriptor_def)

lemma newRequester_protoset:
  "initRequester cfg = Inr r0 \<Longrightarrow> proto cfg = [] \<Longrightarrow> protoset cfg \<noteq> [] \<Longrightarrow>
   newRequester ev cfg w =
     (fillRequester ev r0 (getMethodDescFromProtoSet ev (call cfg) (protoset cfg)), w)"
  by (frule initRequester_fields) (simp add: newRequester_def resolveDescriptor_def)

lemma newRequester_reflect_dial_fails:
  "initRequester cfg = Inr r0 \<Longrightarrow> proto cfg = [] \<Longrightarrow> protoset cfg = [] \<Longrightarrow>
   dialContext ev (length (dialLog w)) = Some e \<Longrightarrow>
   newRequester ev cfg w =
     (Inr (Inl e), w\<lparr>dialLog := dialLog w @ [dialOptions cfg @ [WithDefaultCallOptions]]\<rparr>)"
  by (frule initRequester_fields)
     (simp add: newRequester_def resolveDescriptor_def newClientConn_False fillRequester_Inl)

lemma newRequester_reflect:
  "initRequester cfg = Inr r0 \<Longrightarrow> proto cfg = [] \<Longrightarrow> protoset cfg = [] \<Longrightarrow>
   dialContext ev (length (dialLog w)) = None \<Longrightarrow>
   newRequester ev cfg w =
     (fillRequester ev r0
        (getMethodDescFromReflect ev (call cfg) (length (dialLog w)) (reflectMetadata cfg)),
      w\<lparr>dialLog := dialLog w @ [dialOptions cfg @ [WithDefaultCallOptions]],
        closeLog := closeLog w @ [length (dialLog w)]\<rparr>)"
  by (frule initRequester_fields)
     (simp add: newRequester_def resolveDescriptor_def newClientConn_False)

lemma newRequester_Inr_fields:
  assumes "initRequester cfg = Inr r0" and "fst (newRequester ev cfg w) = Inr (Inr r)"
  shows "conns r = Some [] \<and> handlers r = [] \<and> stubs r = [] \<and> (\<exists>m. mtd r = Some m)"
proof -
  obtain res r1 w1 d where rd: "resolveDescriptor ev r0 w = (res, r1, w1, d)"
    by (cases "resolveDescriptor ev r0 w") auto
  have r1: "r1 = r0"
    using rd by (auto simp: resolveDescriptor_def Let_def newClientConn_False
        split: if_splits option.splits)
  from assms rd have "fillRequester ev r1 res = Inr (Inr r)"
    by (simp add: newRequester_def)
  from fillRequester_Inr_fields [OF this] initRequester_fields [OF assms(1)] r1
  show ?thesis by auto
qed

subsection \<open>The source of the method descriptor\<close>

text \<open>
  C8. Once the \<^verbatim>\<open>make\<close> calls of its composite literal have accepted their sizes,
  \<^verbatim>\<open>newRequester\<close> takes the method descriptor from exactly one source: the
  descriptor file when \<open>proto\<close> is not empty; else the descriptor set when \<open>protoset\<close>
  is not empty; else reflection over one connection that is dialed without a stats
  handler, is not put into the pool and is closed when the function returns. In the first
  two cases nothing is dialed. An error of the source is the result of the construction,
  and a requester that is returned holds no connection, no stub and no stats handler.
\<close>

theorem newRequester_descriptor_source_priority:
  assumes "initRequester cfg = Inr r0"
  shows "(proto cfg \<noteq> [] \<longrightarrow>
            newRequester ev cfg w =
              (fillRequester ev r0
                 (getMethodDescFromProto ev (call cfg) (proto cfg) (importPaths cfg)), w))
       \<and> (proto cfg = [] \<and> protoset cfg \<noteq> [] \<longrightarrow>
            newRequester ev cfg w =
              (fillRequester ev r0
                 (getMethodDescFromProtoSet ev (call cfg) (protoset cfg)), w))
       \<and> (proto cfg = [] \<and> protoset cfg = [] \<longrightarrow>
            (case dialContext ev (length (dialLog w)) of
               Some e \<Rightarrow>
                 newRequester ev cfg w =
                   (Inr (Inl e),
                    w\<lparr>dialLog := dialLog w @ [dialOptions cfg @ [WithDefaultCallOptions]]\<rparr>)
             | None \<Rightarrow>
                 newRequester ev cfg w =
                   (fillRequester ev r0
                      (getMethodDescFromReflect ev (call cfg) (length (dialLog w))
                         (reflectMetadata cfg)),
                    w\<lparr>dialLog := dialLog w @ [dialOptions cfg @ [WithDefaultCallOptions]],
                      closeLog := closeLog w @ [length (dialLog w)]\<rparr>)))
       \<and> WithStatsHandler h \<notin> set (dialOptions cfg @ [WithDefaultCallOptions])
       \<and> fillRequester ev r0 (Inl e) = Inr (Inl e)
       \<and> (fst (newRequester ev cfg w) = Inr (Inr r) \<longrightarrow>
            conns r = Some [] \<and> handlers r = [] \<and> stubs r = [] \<and> (\<exists>m. mtd r = Some m))"
proof (intro conjI impI)
  show "WithStatsHandler h \<notin> set (dialOptions cfg @ [WithDefaultCallOptions])"
    by (rule dialOptions_no_stats)
  show "fillRequester ev r0 (Inl e) = Inr (Inl e)" by (rule fillRequester_Inl)
next
  assume "proto cfg \<noteq> []"
  then show "newRequester ev cfg w =
      (fillRequester ev r0
         (getMethodDescFromProto ev (call cfg) (proto cfg) (importPaths cfg)), w)"
    by (rule newRequester_proto [OF assms])
next
  assume "proto cfg = [] \<and> protoset cfg \<noteq> []"
  then show "newRequester ev cfg w =
      (fillRequester ev r0 (getMethodDescFromProtoSet ev (call cfg) (protoset cfg)), w)"
    using newRequester_protoset [OF assms] by simp
next
  assume a: "proto cfg = [] \<and> protoset cfg = []"
  show "case dialContext ev (length (dialLog w)) of
          Some e \<Rightarrow>
            newRequester ev cfg w =
              (Inr (Inl e),
               w\<lparr>dialLog := dialLog w @ [dialOptions cfg @ [WithDefaultCallOptions]]\<rparr>)
        | None \<Rightarrow>
            newRequester ev cfg w =
              (fillRequester ev r0
                 (getMethodDescFromReflect ev (call cfg) (length (dialLog w))
                    (reflectMetadata cfg)),
               w\<lparr>dialLog := dialLog w @ [dialOptions cfg @ [WithDefaultCallOptions]],
                 closeLog := closeLog w @ [length (dialLog w)]\<rparr>)"
  proof (cases "dialContext ev (length (dialLog w))")
    case None
    with a newRequester_reflect [OF assms, of ev w] show ?thesis by simp
  next
    case (Some e')
    with a newRequester_reflect_dial_fails [OF assms, of ev w e'] show ?thesis by simp
  qed
next
  assume "fst (newRequester ev cfg w) = Inr (Inr r)"
  from newRequester_Inr_fields [OF assms this]
  show "conns r = Some []" "handlers r = []" "stubs r = []" "\<exists>m. mtd r = Some m"
    by simp_all
qed


lemma initRequester_sample:
  "initRequester sampleConfig =
     Inr \<lparr>conns = Some [], stubs = [], handlers = [], mtd = None, config = sampleConfig,
          resultsCap = 3000, resultsClosed = False, reqCounter = 0, arrayJSONData = None\<rparr>"
  by (simp add: initRequester_def sampleConfig_def wrapInt_def maxResult_def size_defs)


lemma initRequester_reflect:
  "initRequester reflectConfig =
     Inr \<lparr>conns = Some [], stubs = [], handlers = [], mtd = None, config = reflectConfig,
          resultsCap = 3000, resultsClosed = False, reqCounter = 0, arrayJSONData = None\<rparr>"
  by (simp add: initRequester_def reflectConfig_def sampleConfig_def wrapInt_def maxResult_def
      size_defs)

theorem newRequester_descriptor_source_priority_witness:
  "proto sampleConfig \<noteq> []
   \<and> newRequester sampleEnv sampleConfig noWorld = (Inr (Inr sampleRequester), noWorld)
   \<and> proto reflectConfig = [] \<and> protoset reflectConfig = []
   \<and> newRequester sampleEnv reflectConfig noWorld =
       (Inr (Inr (sampleRequester\<lparr>config := reflectConfig\<rparr>)),
        \<lparr>dialLog = [[WithInsecure, WithDefaultCallOptions]], closeLog = [0]\<rparr>)"
proof -
  have p1: "proto sampleConfig \<noteq> []" by (simp add: sampleConfig_def)
  have p2: "proto reflectConfig = [] \<and> protoset reflectConfig = []"
    by (simp add: reflectConfig_def sampleConfig_def)
  have d: "dialContext sampleEnv (length (dialLog noWorld)) = None"
    by (simp add: sampleEnv_def)
  have a: "newRequester sampleEnv sampleConfig noWorld = (Inr (Inr sampleRequester), noWorld)"
    using newRequester_descriptor_source_priority [OF initRequester_sample, of sampleEnv noWorld]
      p1
    by (simp add: fillRequester_def sampleEnv_def sampleUnmarshal_def Let_def
        sampleRequester_def sampleMethod_def size_defs)
       (simp add: sampleConfig_def)
  have b: "newRequester sampleEnv reflectConfig noWorld =
       (Inr (Inr (sampleRequester\<lparr>config := reflectConfig\<rparr>)),
        \<lparr>dialLog = [[WithInsecure, WithDefaultCallOptions]], closeLog = [0]\<rparr>)"
    using newRequester_descriptor_source_priority [OF initRequester_reflect, of sampleEnv noWorld]
      p2 d
    by (simp add: fillRequester_def sampleEnv_def sampleUnmarshal_def Let_def
        sampleRequester_def sampleMethod_def noWorld_def dialOptions_def size_defs)
       (simp add: reflectConfig_def sampleConfig_def)
  from p1 p2 a b show ?thesis by simp
qed

subsection \<open>The table of array elements\<close>









subsection \<open>Worker identities are distinct\<close>

lemma digitsValue_snoc:
  "digitsValue (s @ [ch]) = 10 * digitsValue s + (of_char ch - 48)"
  by (simp add: digitsValue_def)

lemma of_char_digit: "d < 10 \<Longrightarrow> of_char (char_of (48 + d)) = (48 + d :: nat)"
  by simp

lemma digitsValue_itoaNat: "digitsValue (itoaNat k) = k"
proof (induction k rule: itoaNat.induct)
  case (1 k)
  show ?case
  proof (cases "k < 10")
    case True
    then show ?thesis
      by (subst itoaNat.simps) (simp add: digitsValue_def)
  next
    case False
    have m: "k mod 10 < 10" by simp
    from False "1.IH" have ih: "digitsValue (itoaNat (k div 10)) = k div 10" by simp
    from False have "itoaNat k = itoaNat (k div 10) @ [char_of (48 + k mod 10)]"
      by (subst itoaNat.simps) simp
    then show ?thesis
      using ih of_char_digit [OF m] by (simp add: digitsValue_snoc)
  qed
qed

lemma itoaNat_inj: "itoaNat a = itoaNat b \<Longrightarrow> a = b"
  by (metis digitsValue_itoaNat)

lemma digit_not_c: "d < 10 \<Longrightarrow> char_of (48 + d :: nat) \<noteq> CHR ''c''"
proof
  assume d: "d < 10" and eq: "char_of (48 + d) = CHR ''c''"
  then have "of_char (char_of (48 + d)) = (of_char (CHR ''c'') :: nat)" by simp
  with d show False by simp
qed

lemma takeWhile_upto_char:
  "ch \<notin> set xs \<Longrightarrow> takeWhile (\<lambda>x. x \<noteq> ch) (xs @ ch # r) = xs"
  by (induction xs) auto

lemma itoaNat_no_c: "CHR ''c'' \<notin> set (itoaNat k)"
proof (induction k rule: itoaNat.induct)
  case (1 k)
  show ?case
  proof (cases "k < 10")
    case True
    then show ?thesis
      using digit_not_c [of k] by (subst itoaNat.simps) auto
  next
    case False
    have m: "k mod 10 < 10" by simp
    from False "1.IH" have ih: "CHR ''c'' \<notin> set (itoaNat (k div 10))" by simp
    from False have "itoaNat k = itoaNat (k div 10) @ [char_of (48 + k mod 10)]"
      by (subst itoaNat.simps) simp
    then show ?thesis using ih digit_not_c [OF m] by auto
  qed
qed

lemma split_at_c:
  assumes "ch \<notin> set xs" and "ch \<notin> set ys" and "xs @ ch # r = ys @ ch # r'"
  shows "xs = ys"
proof -
  have "takeWhile (\<lambda>x. x \<noteq> ch) (xs @ ch # r) = xs"
    using assms(1) by (rule takeWhile_upto_char)
  moreover have "takeWhile (\<lambda>x. x \<noteq> ch) (ys @ ch # r') = ys"
    using assms(2) by (rule takeWhile_upto_char)
  ultimately show ?thesis using assms(3) by simp
qed

lemma workerIDOf_inj:
  assumes "0 \<le> i" and "0 \<le> j" and "workerIDOf cfg i k = workerIDOf cfg j k'"
  shows "i = j"
proof -
  from assms(3) have "Itoa i @ CHR ''c'' # Itoa k = Itoa j @ CHR ''c'' # Itoa k'"
    by (simp add: workerIDOf_def Let_def split: if_splits)
  moreover have "Itoa i = itoaNat (nat i)" "Itoa j = itoaNat (nat j)"
    using assms(1,2) by (simp_all add: Itoa_def)
  ultimately have "itoaNat (nat i) = itoaNat (nat j)"
    using split_at_c [of "CHR ''c''" "itoaNat (nat i)" "itoaNat (nat j)"] itoaNat_no_c
    by simp
  then have "nat i = nat j" by (rule itoaNat_inj)
  with assms(1,2) show ?thesis by simp
qed

subsection \<open>The creation loop\<close>

lemma update_new_key: "x \<notin> fst ` set al \<Longrightarrow> AList.update x v al = al @ [(x, v)]"
  by (induction al) auto

lemma createWorkers_step:
  assumes "i < c (config b)" and "0 \<le> k" and "k < int (length (stubs b))"
  shows "createWorkers b i k p =
           createWorkers b (i + 1) (if k + 1 = nConns (config b) then 0 else k + 1)
             (p\<lparr>objs := objs p @ [\<lparr>stub = stubs b ! nat k, wmtd = mtd b, wconfig = config b,
                                    workerID = workerIDOf (config b) i k,
                                    warrayJSONData = arrayJSONData b,
                                    active = True, wdone = Some []\<rparr>],
                workers := AList.update (workerIDOf (config b) i k) (length (objs p)) (workers p),
                runs := runs p @ [\<lparr>reqCount = 0, finished = False\<rparr>]\<rparr>)"
  using assms by (subst createWorkers.simps) (simp add: Let_def)

lemma createWorkers_stop: "\<not> i < c (config b) \<Longrightarrow> createWorkers b i k p = Inr p"
  by (subst createWorkers.simps) simp

lemma createWorkers_panic:
  "i < c (config b) \<Longrightarrow> k < 0 \<or> int (length (stubs b)) \<le> k \<Longrightarrow>
   createWorkers b i k p = Inl IndexOutOfRange"
  by (subst createWorkers.simps) auto

lemma createdUpTo_step:
  assumes inv: "createdUpTo cfg i p"
  shows "createdUpTo cfg (i + 1)
           (p\<lparr>objs := objs p @ [\<lparr>stub = s, wmtd = md, wconfig = wc,
                                  workerID = workerIDOf cfg i k, warrayJSONData = aj,
                                  active = True, wdone = Some []\<rparr>],
              workers := AList.update (workerIDOf cfg i k) (length (objs p)) (workers p),
              runs := runs p @ [\<lparr>reqCount = 0, finished = False\<rparr>]\<rparr>)"
proof -
  let ?w = "\<lparr>stub = s, wmtd = md, wconfig = wc, workerID = workerIDOf cfg i k,
             warrayJSONData = aj, active = True, wdone = Some []\<rparr>"
  from inv have i0: "0 \<le> i" and lo: "length (objs p) = nat i" and lr: "length (runs p) = nat i"
    and ws: "workers p = map (\<lambda>m. (workerID (objs p ! m), m)) [0..<nat i]"
    and ids: "list_all (\<lambda>m. \<exists>k. workerID (objs p ! m) = workerIDOf cfg (int m) k) [0..<nat i]"
    and fresh: "list_all (\<lambda>w. active w \<and> wdone w = Some []) (objs p)"
    and rs: "list_all (\<lambda>r. reqCount r = 0 \<and> \<not> finished r) (runs p)"
    and ec: "errC p = []"
    by (simp_all add: createdUpTo_def)
  have n1: "nat (i + 1) = Suc (nat i)" using i0 by simp
  have newkey: "workerIDOf cfg i k \<notin> fst ` set (workers p)"
  proof
    assume "workerIDOf cfg i k \<in> fst ` set (workers p)"
    then obtain m where m: "m < nat i" and eq: "workerIDOf cfg i k = workerID (objs p ! m)"
      by (auto simp: ws)
    from ids m have "\<exists>k'. workerID (objs p ! m) = workerIDOf cfg (int m) k'"
      by (simp add: list_all_iff)
    then obtain k' where "workerID (objs p ! m) = workerIDOf cfg (int m) k'" ..
    with eq have "workerIDOf cfg i k = workerIDOf cfg (int m) k'" by simp
    from workerIDOf_inj [OF i0 _ this] have "i = int m" by simp
    with m show False by simp
  qed
  have upd: "AList.update (workerIDOf cfg i k) (length (objs p)) (workers p)
             = workers p @ [(workerIDOf cfg i k, nat i)]"
    using update_new_key [OF newkey] lo by simp
  have old: "\<And>m. m < nat i \<Longrightarrow> (objs p @ [?w]) ! m = objs p ! m"
    using lo by (simp add: nth_append)
  have new: "(objs p @ [?w]) ! nat i = ?w" using lo by (simp add: nth_append)
  have ws': "workers p @ [(workerIDOf cfg i k, nat i)]
             = map (\<lambda>m. (workerID ((objs p @ [?w]) ! m), m)) [0..<Suc (nat i)]"
    using new by (simp add: ws old)
  have ids': "list_all (\<lambda>m. \<exists>k. workerID ((objs p @ [?w]) ! m) = workerIDOf cfg (int m) k)
                [0..<Suc (nat i)]"
  proof -
    have "\<exists>k'. workerID ((objs p @ [?w]) ! nat i) = workerIDOf cfg (int (nat i)) k'"
      using i0 new by auto
    moreover have "list_all (\<lambda>m. \<exists>k. workerID ((objs p @ [?w]) ! m) = workerIDOf cfg (int m) k)
                     [0..<nat i]"
      using ids by (simp add: list_all_iff old)
    ultimately show ?thesis by simp
  qed
  have wseq: "AList.update (workerIDOf cfg i k) (nat i) (workers p)
             = map (\<lambda>m. (workerID ((objs p @ [?w]) ! m), m)) [0..<Suc (nat i)]"
    using upd ws' lo by simp
  show ?thesis
    unfolding createdUpTo_def n1
    using i0 lo lr fresh rs ec ids' by (simp add: wseq)
qed

lemma createWorkers_createdUpTo:
  "createdUpTo (config b) i p \<Longrightarrow> createWorkers b i k p = Inr p' \<Longrightarrow>
   createdUpTo (config b) (max i (c (config b))) p'
   \<and> counter p' = counter p \<and> nReqPerWorker p' = nReqPerWorker p"
proof (induction "nat (c (config b) - i)" arbitrary: i k p)
  case 0
  then have "\<not> i < c (config b)" by simp
  with "0.prems" show ?case by (simp add: createWorkers_stop max_def)
next
  case (Suc d)
  then have lt: "i < c (config b)" by simp
  show ?case
  proof (cases "k < 0 \<or> int (length (stubs b)) \<le> k")
    case True
    with lt Suc.prems(2) show ?thesis by (simp add: createWorkers_panic)
  next
    case False
    then have k: "0 \<le> k" "k < int (length (stubs b))" by simp_all
    let ?p = "p\<lparr>objs := objs p @ [\<lparr>stub = stubs b ! nat k, wmtd = mtd b, wconfig = config b,
                                    workerID = workerIDOf (config b) i k,
                                    warrayJSONData = arrayJSONData b,
                                    active = True, wdone = Some []\<rparr>],
                workers := AList.update (workerIDOf (config b) i k) (length (objs p)) (workers p),
                runs := runs p @ [\<lparr>reqCount = 0, finished = False\<rparr>]\<rparr>"
    let ?k = "if k + 1 = nConns (config b) then 0 else k + 1"
    have d: "d = nat (c (config b) - (i + 1))" using Suc.hyps(2) by simp
    have inv: "createdUpTo (config b) (i + 1) ?p"
      by (rule createdUpTo_step [OF Suc.prems(1)])
    have run: "createWorkers b (i + 1) ?k ?p = Inr p'"
      using Suc.prems(2) createWorkers_step [OF lt k, of p] by simp
    from Suc.hyps(1) [OF d inv run] lt show ?thesis by (simp add: max_def)
  qed
qed

lemma createWorkers_binds:
  assumes "1 \<le> nConns (config b)" and "nConns (config b) \<le> int (length (stubs b))"
  shows "0 \<le> i \<Longrightarrow> k = i mod nConns (config b) \<Longrightarrow> length (objs p) = nat i \<Longrightarrow>
         \<exists>p'. createWorkers b i k p = Inr p' \<and> take (nat i) (objs p') = objs p
              \<and> (\<forall>j. i \<le> j \<and> j < c (config b) \<longrightarrow> objs p' ! nat j = workerOf b j)"
proof (induction "nat (c (config b) - i)" arbitrary: i k p)
  case 0
  then have "\<not> i < c (config b)" by simp
  with "0.prems" show ?case by (auto simp: createWorkers_stop)
next
  case (Suc d)
  then have lt: "i < c (config b)" by simp
  let ?m = "nConns (config b)"
  have k0: "0 \<le> k" and km: "k < ?m" using Suc.prems(2) assms(1) by simp_all
  then have k: "0 \<le> k" "k < int (length (stubs b))" using assms(2) by simp_all
  let ?w = "\<lparr>stub = stubs b ! nat k, wmtd = mtd b, wconfig = config b,
             workerID = workerIDOf (config b) i k, warrayJSONData = arrayJSONData b,
             active = True, wdone = Some []\<rparr>"
  let ?p = "p\<lparr>objs := objs p @ [?w],
              workers := AList.update (workerIDOf (config b) i k) (length (objs p)) (workers p),
              runs := runs p @ [\<lparr>reqCount = 0, finished = False\<rparr>]\<rparr>"
  let ?k = "if k + 1 = ?m then 0 else k + 1"
  have w: "?w = workerOf b i" using Suc.prems(2) by (simp add: workerOf_def)
  have d: "d = nat (c (config b) - (i + 1))" using Suc.hyps(2) by simp
  have i1: "0 \<le> i + 1" using Suc.prems(1) by simp
  have k1: "?k = (i + 1) mod ?m"
  proof -
    have "(i + 1) mod ?m = (i mod ?m + 1) mod ?m" by (simp add: mod_add_left_eq)
    also have "\<dots> = (k + 1) mod ?m" using Suc.prems(2) by simp
    also have "\<dots> = ?k" using k0 km by (auto simp: mod_pos_pos_trivial)
    finally show ?thesis by simp
  qed
  have l1: "length (objs ?p) = nat (i + 1)" using Suc.prems(1,3) by simp
  from Suc.hyps(1) [OF d i1 k1 l1] obtain p' where
    run: "createWorkers b (i + 1) ?k ?p = Inr p'"
    and tk: "take (nat (i + 1)) (objs p') = objs p @ [?w]"
    and rest: "\<forall>j. i + 1 \<le> j \<and> j < c (config b) \<longrightarrow> objs p' ! nat j = workerOf b j"
    by auto
  have n1: "nat (i + 1) = Suc (nat i)" using Suc.prems(1) by simp
  have tk0: "take (nat i) (objs p') = objs p"
  proof -
    have "take (nat i) (objs p') = take (nat i) (take (nat (i + 1)) (objs p'))"
      by (simp add: n1 min_def)
    also have "\<dots> = objs p" using Suc.prems(3) by (simp add: tk)
    finally show ?thesis .
  qed
  have at_i: "objs p' ! nat i = workerOf b i"
  proof -
    have "objs p' ! nat i = take (nat (i + 1)) (objs p') ! nat i" by (simp add: n1)
    also have "\<dots> = ?w" using Suc.prems(3) by (simp add: tk nth_append)
    finally show ?thesis using w by simp
  qed
  have all: "\<forall>j. i \<le> j \<and> j < c (config b) \<longrightarrow> objs p' ! nat j = workerOf b j"
  proof (intro allI impI)
    fix j assume j: "i \<le> j \<and> j < c (config b)"
    show "objs p' ! nat j = workerOf b j"
    proof (cases "j = i")
      case True
      with at_i show ?thesis by simp
    next
      case False
      with j rest show ?thesis by simp
    qed
  qed
  have "createWorkers b i k p = Inr p'"
    using run createWorkers_step [OF lt k, of p] by simp
  with tk0 all show ?case by blast
qed

lemma map_of_indexed:
  assumes "distinct (map f xs)" and "x \<in> set xs"
  shows "map_of (map (\<lambda>m. (f m, m)) xs) (f x) = Some x"
proof -
  have "distinct (map fst (map (\<lambda>m. (f m, m)) xs))"
    using assms(1) by (simp add: comp_def)
  moreover have "(f x, x) \<in> set (map (\<lambda>m. (f m, m)) xs)" using assms(2) by auto
  ultimately show ?thesis by (simp only: map_of_eq_Some_iff)
qed

lemma createdUpTo_empty:
  "createdUpTo cfg 0 \<lparr>objs = [], workers = [], runs = [], errC = [], counter = cn,
                       nReqPerWorker = q\<rparr>"
  by (simp add: createdUpTo_def)

lemma createdUpTo_distinct_ids:
  assumes "createdUpTo cfg i p"
  shows "distinct (map (\<lambda>m. workerID (objs p ! m)) [0..<nat i])"
proof -
  from assms have ids:
    "list_all (\<lambda>m. \<exists>k. workerID (objs p ! m) = workerIDOf cfg (int m) k) [0..<nat i]"
    by (simp add: createdUpTo_def)
  have "inj_on (\<lambda>m. workerID (objs p ! m)) (set [0..<nat i])"
  proof (rule inj_onI)
    fix x y assume x: "x \<in> set [0..<nat i]" and y: "y \<in> set [0..<nat i]"
      and eq: "workerID (objs p ! x) = workerID (objs p ! y)"
    from ids x have "\<exists>k. workerID (objs p ! x) = workerIDOf cfg (int x) k"
      by (simp add: list_all_iff)
    then obtain k where kx: "workerID (objs p ! x) = workerIDOf cfg (int x) k" ..
    from ids y have "\<exists>k. workerID (objs p ! y) = workerIDOf cfg (int y) k"
      by (simp add: list_all_iff)
    then obtain k' where ky: "workerID (objs p ! y) = workerIDOf cfg (int y) k'" ..
    from eq kx ky have "workerIDOf cfg (int x) k = workerIDOf cfg (int y) k'" by simp
    from workerIDOf_inj [OF _ _ this] show "x = y" by simp
  qed
  then show ?thesis by (simp add: distinct_map)
qed

lemma startPool_created:
  assumes "startPool b = Inr (p, None)"
  shows "createdUpTo (config b) (c (config b)) p \<and> 0 < c (config b)
         \<and> counter p = reqCounter b
         \<and> goDiv (n (config b)) (c (config b)) = Inr (nReqPerWorker p)"
proof -
  from assms obtain q where q: "goDiv (n (config b)) (c (config b)) = Inr q"
    by (auto simp: startPool_def split: sum.splits)
  let ?p0 = "\<lparr>objs = [], workers = [], runs = [], errC = [], counter = reqCounter b,
              nReqPerWorker = q\<rparr>"
  from assms q have pos: "0 < c (config b)" and cw: "createWorkers b 0 0 ?p0 = Inr p"
    by (auto simp: startPool_def makechanPanics_def Let_def split: sum.splits if_splits)
  from createWorkers_createdUpTo [OF createdUpTo_empty cw]
  have inv: "createdUpTo (config b) (max 0 (c (config b))) p"
    and cn: "counter p = reqCounter b" and nq: "nReqPerWorker p = q" by simp_all
  from pos inv cn nq q show ?thesis by (simp add: max_def)
qed

text \<open>
  A concurrency that \<^verbatim>\<open>make(chan error, c)\<close> refuses: the pool panics before it creates
  a worker.
\<close>

lemma startPool_refuses_large_concurrency:
  "startPool (readyRequester\<lparr>config := sampleConfig\<lparr>c := 2 ^ 61\<rparr>\<rparr>) = Inl MakeSizeOutOfRange"
  by (simp add: startPool_def goDiv_def sampleConfig_def size_defs)

lemma startPool_binds:
  assumes "1 \<le> nConns (config b)" and "nConns (config b) \<le> int (length (stubs b))"
    and "0 < c (config b)" and "\<not> makechanPanics errorSize (c (config b))"
  shows "\<exists>p. startPool b = Inr (p, None)
             \<and> (\<forall>j. 0 \<le> j \<and> j < c (config b) \<longrightarrow> objs p ! nat j = workerOf b j)"
proof -
  obtain q where q: "goDiv (n (config b)) (c (config b)) = Inr q"
    using assms(3) by (simp add: goDiv_def)
  let ?p0 = "\<lparr>objs = [], workers = [], runs = [], errC = [], counter = reqCounter b,
              nReqPerWorker = q\<rparr>"
  have "\<exists>p'. createWorkers b 0 0 ?p0 = Inr p' \<and> take (nat 0) (objs p') = objs ?p0
              \<and> (\<forall>j. 0 \<le> j \<and> j < c (config b) \<longrightarrow> objs p' ! nat j = workerOf b j)"
    by (rule createWorkers_binds [OF assms(1,2)]) simp_all
  then obtain p' where cw: "createWorkers b 0 0 ?p0 = Inr p'"
    and all: "\<forall>j. 0 \<le> j \<and> j < c (config b) \<longrightarrow> objs p' ! nat j = workerOf b j" by blast
  have "startPool b = Inr (p', None)"
    using q cw assms(3,4) by (simp add: startPool_def Let_def)
  with all show ?thesis by blast
qed

subsection \<open>Workers and connections\<close>

lemma startPool_round_robin:
  assumes "1 \<le> nConns (config b)" and "nConns (config b) \<le> int (length (stubs b))"
    and "0 \<le> i" and "i < c (config b)"
    and "\<not> makechanPanics errorSize (c (config b))"
  shows "\<exists>p. startPool b = Inr (p, None)
           \<and> length (objs p) = nat (c (config b))
           \<and> stub (objs p ! nat i) = stubs b ! nat (i mod nConns (config b))
           \<and> (\<forall>cc. stubs b = map NewStub cc \<longrightarrow>
                 stub (objs p ! nat i) = NewStub (cc ! nat (i mod nConns (config b))))
           \<and> workerID (objs p ! nat i) =
               (if length (name (config b)) > 0 then name (config b) @ '':'' else [])
               @ ''g'' @ Itoa i @ ''c'' @ Itoa (i mod nConns (config b))
           \<and> map_of (workers p) (workerID (objs p ! nat i)) = Some (nat i)"
proof -
  let ?m = "nConns (config b)"
  have pos: "0 < c (config b)" using assms(3,4) by simp
  from startPool_binds [OF assms(1,2) pos assms(5)] obtain p where
    sp: "startPool b = Inr (p, None)"
    and all: "\<forall>j. 0 \<le> j \<and> j < c (config b) \<longrightarrow> objs p ! nat j = workerOf b j" by blast
  from all assms(3,4) have w: "objs p ! nat i = workerOf b i" by simp
  from startPool_created [OF sp] have inv: "createdUpTo (config b) (c (config b)) p" by simp
  then have len: "length (objs p) = nat (c (config b))"
    and ws: "workers p = map (\<lambda>m. (workerID (objs p ! m), m)) [0..<nat (c (config b))]"
    by (simp_all add: createdUpTo_def)
  have st: "stub (objs p ! nat i) = stubs b ! nat (i mod ?m)"
    by (simp add: w workerOf_def)
  have idx: "nat (i mod ?m) < length (stubs b)"
  proof -
    have "i mod ?m < ?m" using assms(1) by simp
    moreover have "0 \<le> i mod ?m" using assms(1) by simp
    ultimately show ?thesis using assms(2) by linarith
  qed
  have conn: "\<forall>cc. stubs b = map NewStub cc \<longrightarrow>
                 stub (objs p ! nat i) = NewStub (cc ! nat (i mod ?m))"
  proof (intro allI impI)
    fix cc assume e: "stubs b = map NewStub cc"
    with idx have "nat (i mod ?m) < length cc" by simp
    then show "stub (objs p ! nat i) = NewStub (cc ! nat (i mod ?m))"
      by (simp add: st e)
  qed
  have wid: "workerID (objs p ! nat i) =
               (if length (name (config b)) > 0 then name (config b) @ '':'' else [])
               @ ''g'' @ Itoa i @ ''c'' @ Itoa (i mod ?m)"
    by (simp add: w workerOf_def workerIDOf_def Let_def)
  have mem: "nat i \<in> set [0..<nat (c (config b))]" using assms(3,4) by simp
  have look: "map_of (workers p) (workerID (objs p ! nat i)) = Some (nat i)"
    unfolding ws
    by (rule map_of_indexed [OF createdUpTo_distinct_ids [OF inv] mem])
  from sp len st conn wid look show ?thesis by blast
qed

text \<open>
  C5. With at least one connection and a stub for each, the pool creates worker \<open>i\<close>
  (from 0 up to \<open>c\<close>) bound to the stub at index \<open>i mod nConns\<close>, which is the stub
  of connection \<open>i mod nConns\<close> when the stubs were made from the connections in order;
  its identity is the run name with a colon if the name is not empty, then \<open>g\<close>, the
  decimal \<open>i\<close>, \<open>c\<close>, and the decimal \<open>i mod nConns\<close>; and the map of workers
  finds that very worker under that identity. The one exception is a concurrency that
  \<^verbatim>\<open>make(chan error, c)\<close> refuses: then the pool panics before it creates a worker.
\<close>

theorem worker_bound_to_connection_round_robin:
  assumes "1 \<le> nConns (config b)" and "nConns (config b) \<le> int (length (stubs b))"
    and "0 \<le> i" and "i < c (config b)"
  shows "(\<not> makechanPanics errorSize (c (config b)) \<longrightarrow>
           (\<exists>p. startPool b = Inr (p, None)
              \<and> length (objs p) = nat (c (config b))
              \<and> stub (objs p ! nat i) = stubs b ! nat (i mod nConns (config b))
              \<and> (\<forall>cc. stubs b = map NewStub cc \<longrightarrow>
                    stub (objs p ! nat i) = NewStub (cc ! nat (i mod nConns (config b))))
              \<and> workerID (objs p ! nat i) =
                  (if length (name (config b)) > 0 then name (config b) @ '':'' else [])
                  @ ''g'' @ Itoa i @ ''c'' @ Itoa (i mod nConns (config b))
              \<and> map_of (workers p) (workerID (objs p ! nat i)) = Some (nat i)))
       \<and> (makechanPanics errorSize (c (config b)) \<longrightarrow>
             startPool b = Inl MakeSizeOutOfRange)"
proof (intro conjI impI)
  assume "\<not> makechanPanics errorSize (c (config b))"
  from startPool_round_robin [OF assms this]
  show "\<exists>p. startPool b = Inr (p, None)
              \<and> length (objs p) = nat (c (config b))
              \<and> stub (objs p ! nat i) = stubs b ! nat (i mod nConns (config b))
              \<and> (\<forall>cc. stubs b = map NewStub cc \<longrightarrow>
                    stub (objs p ! nat i) = NewStub (cc ! nat (i mod nConns (config b))))
              \<and> workerID (objs p ! nat i) =
                  (if length (name (config b)) > 0 then name (config b) @ '':'' else [])
                  @ ''g'' @ Itoa i @ ''c'' @ Itoa (i mod nConns (config b))
              \<and> map_of (workers p) (workerID (objs p ! nat i)) = Some (nat i)" .
next
  assume "makechanPanics errorSize (c (config b))"
  with assms(3,4) show "startPool b = Inl MakeSizeOutOfRange"
    by (simp add: startPool_def goDiv_def)
qed

lemma Itoa_small: "Itoa 0 = ''0''" "Itoa 1 = ''1''" "Itoa 2 = ''2''"
  by code_simp+

theorem worker_bound_to_connection_round_robin_witness:
  "1 \<le> nConns (config readyRequester)
   \<and> nConns (config readyRequester) \<le> int (length (stubs readyRequester))
   \<and> (2::int) < c (config readyRequester)
   \<and> \<not> makechanPanics errorSize (c (config readyRequester))
   \<and> stubs readyRequester = map NewStub [0, 1]
   \<and> (\<exists>p. startPool readyRequester = Inr (p, None)
          \<and> stub (objs p ! 2) = NewStub 0 \<and> workerID (objs p ! 2) = ''g2c0''
          \<and> map_of (workers p) ''g2c0'' = Some 2)"
proof -
  have h1: "1 \<le> nConns (config readyRequester)"
    by (simp add: readyRequester_def sample_defs)
  have h2: "nConns (config readyRequester) \<le> int (length (stubs readyRequester))"
    by (simp add: readyRequester_def sample_defs)
  have h3: "(0::int) \<le> 2" by simp
  have h4: "(2::int) < c (config readyRequester)" by (simp add: readyRequester_def sample_defs)
  have h5: "\<not> makechanPanics errorSize (c (config readyRequester))"
    by (simp add: readyRequester_def sample_defs size_defs)
  have st: "stubs readyRequester = map NewStub [0, 1]" by (simp add: readyRequester_def)
  have nm: "name (config readyRequester) = []" "nConns (config readyRequester) = 2"
    by (simp_all add: readyRequester_def sample_defs)
  from worker_bound_to_connection_round_robin [OF h1 h2 h3 h4] h5
  obtain p where sp: "startPool readyRequester = Inr (p, None)"
    and sb: "\<forall>cc. stubs readyRequester = map NewStub cc \<longrightarrow>
                 stub (objs p ! nat 2) = NewStub (cc ! nat (2 mod nConns (config readyRequester)))"
    and wid: "workerID (objs p ! nat 2) =
               (if length (name (config readyRequester)) > 0
                then name (config readyRequester) @ '':'' else [])
               @ ''g'' @ Itoa 2 @ ''c'' @ Itoa (2 mod nConns (config readyRequester))"
    and look: "map_of (workers p) (workerID (objs p ! nat 2)) = Some (nat 2)"
    by blast
  from sb st have "stub (objs p ! nat 2) = NewStub ([0, 1] ! nat (2 mod nConns (config readyRequester)))"
    by blast
  then have s2: "stub (objs p ! 2) = NewStub 0" by (simp add: nm)
  from wid have w2: "workerID (objs p ! 2) = ''g2c0''" by (simp add: nm Itoa_small)
  from look w2 have l2: "map_of (workers p) ''g2c0'' = Some 2" by simp
  from sp s2 w2 l2 h1 h2 h4 h5 st show ?thesis by blast
qed

subsection \<open>Helper facts about the loop of the pool\<close>

lemma rangeWorkers_from:
  "k \<le> length os \<Longrightarrow> \<forall>w\<in>set os. f w = Inr (g w) \<Longrightarrow>
   rangeWorkers f [k..<length os] (map g (take k os) @ drop k os) = Inr (map g os)"
proof (induction "length os - k" arbitrary: k)
  case 0
  then show ?case by simp
next
  case (Suc d)
  then have lt: "k < length os" by simp
  let ?L = "map g (take k os) @ drop k os"
  have lenL: "length ?L = length os" using lt by simp
  have at: "?L ! k = os ! k" using lt by (simp add: nth_append)
  have fk: "f (os ! k) = Inr (g (os ! k))" using Suc.prems(2) lt by simp
  have upd: "?L[k := g (os ! k)] = map g (take (Suc k) os) @ drop (Suc k) os"
  proof -
    have "drop k os = os ! k # drop (Suc k) os" using lt by (simp add: Cons_nth_drop_Suc)
    then have "?L[k := g (os ! k)] = map g (take k os) @ (g (os ! k) # drop (Suc k) os)"
      using lt by (simp add: list_update_append)
    also have "\<dots> = map g (take (Suc k) os) @ drop (Suc k) os"
      using lt by (simp add: take_Suc_conv_app_nth)
    finally show ?thesis .
  qed
  have d: "d = length os - Suc k" using Suc.hyps(2) by simp
  have le: "Suc k \<le> length os" using lt by simp
  have "rangeWorkers f [k..<length os] ?L = rangeWorkers f [Suc k..<length os] (?L[k := g (os ! k)])"
    using lt lenL at fk by (simp add: upt_conv_Cons del: upt_Suc)
  also have "\<dots> = Inr (map g os)"
    unfolding upd by (rule Suc.hyps(1) [OF d le Suc.prems(2)])
  finally show ?case .
qed

lemma rangeWorkers_all:
  "\<forall>w\<in>set os. f w = Inr (g w) \<Longrightarrow> rangeWorkers f [0..<length os] os = Inr (map g os)"
  using rangeWorkers_from [of 0 os f g] by simp

lemma finishWorker_ok: "atMostOneSignal w \<Longrightarrow> finishWorker w = Inr (signalIfActive w)"
  by (auto simp: atMostOneSignal_def finishWorker_def sendDone_def signalIfActive_def)

lemma signalIfActive_ok: "atMostOneSignal w \<Longrightarrow> atMostOneSignal (signalIfActive w)"
  by (auto simp: atMostOneSignal_def signalIfActive_def)

lemma closeDone_ok:
  "atMostOneSignal w \<Longrightarrow>
   closeDone w = Inr (w\<lparr>wdone := Some (the (wdone w) @ [Close])\<rparr>)
   \<and> closedAfterSignal (w\<lparr>wdone := Some (the (wdone w) @ [Close])\<rparr>)"
  by (auto simp: atMostOneSignal_def closeDone_def closedAfterSignal_def)

lemma finishWorkers_ok:
  assumes "poolOk p"
  shows "finishWorkers p = Inr (p\<lparr>objs := map signalIfActive (objs p)\<rparr>)
         \<and> poolOk (p\<lparr>objs := map signalIfActive (objs p)\<rparr>)"
proof -
  from assms have ptr: "map snd (workers p) = [0..<length (objs p)]"
    and ok: "list_all atMostOneSignal (objs p)" by (simp_all add: poolOk_def)
  have "\<forall>w\<in>set (objs p). finishWorker w = Inr (signalIfActive w)"
    using ok finishWorker_ok by (auto simp: list_all_iff)
  then have "rangeWorkers finishWorker [0..<length (objs p)] (objs p)
             = Inr (map signalIfActive (objs p))"
    by (rule rangeWorkers_all)
  then have 1: "finishWorkers p = Inr (p\<lparr>objs := map signalIfActive (objs p)\<rparr>)"
    by (simp add: finishWorkers_def ptr)
  have 2: "poolOk (p\<lparr>objs := map signalIfActive (objs p)\<rparr>)"
    using ptr ok signalIfActive_ok by (auto simp: poolOk_def list_all_iff)
  from 1 2 show ?thesis by simp
qed

lemma closeWorkers_ok:
  assumes "poolOk p"
  shows "\<exists>p'. closeWorkers p = Inr p' \<and> list_all closedAfterSignal (objs p')"
proof -
  let ?g = "\<lambda>w. w\<lparr>wdone := Some (the (wdone w) @ [Close])\<rparr>"
  from assms have ptr: "map snd (workers p) = [0..<length (objs p)]"
    and ok: "list_all atMostOneSignal (objs p)" by (simp_all add: poolOk_def)
  have "\<forall>w\<in>set (objs p). closeDone w = Inr (?g w)"
    using ok closeDone_ok by (auto simp: list_all_iff)
  then have "rangeWorkers closeDone [0..<length (objs p)] (objs p) = Inr (map ?g (objs p))"
    by (rule rangeWorkers_all)
  then have 1: "closeWorkers p = Inr (p\<lparr>objs := map ?g (objs p)\<rparr>)"
    by (simp add: closeWorkers_def ptr)
  have 2: "list_all closedAfterSignal (objs (p\<lparr>objs := map ?g (objs p)\<rparr>))"
    using ok closeDone_ok by (auto simp: list_all_iff)
  from 1 2 show ?thesis by blast
qed

lemma list_all_update: "list_all P xs \<Longrightarrow> P x \<Longrightarrow> list_all P (xs[k := x])"
  by (induction xs arbitrary: k) (auto split: nat.splits)

lemma workerStep_ok: "poolOk p \<Longrightarrow> poolOk (workerStep ev p)"
proof (cases ev)
  case (Deactivate k)
  assume ok: "poolOk p"
  show ?thesis
  proof (cases "k < length (objs p)")
    case True
    from ok have "atMostOneSignal (objs p ! k)"
      using True by (simp add: poolOk_def list_all_iff)
    then have "atMostOneSignal ((objs p ! k)\<lparr>active := False\<rparr>)"
      by (auto simp: atMostOneSignal_def)
    with ok True Deactivate show ?thesis
      by (simp add: workerStep_def poolOk_def list_all_update)
  next
    case False
    with ok Deactivate show ?thesis by (simp add: workerStep_def)
  qed
next
  case StopSignal
  assume "poolOk p"
  with StopSignal show ?thesis by (simp add: workerStep_def)
next
  case AllDone
  assume "poolOk p"
  with AllDone show ?thesis by (simp add: workerStep_def)
next
  case (IssueCall k)
  assume "poolOk p"
  with IssueCall show ?thesis by (simp add: workerStep_def poolOk_def)
next
  case (WorkerReturns k e)
  assume "poolOk p"
  with WorkerReturns show ?thesis by (simp add: workerStep_def poolOk_def)
qed

lemma poolStep_ok:
  assumes "poolOk p"
  shows "\<exists>p' r. poolStep ev p = Inr (p', r)
                \<and> (case r of None \<Rightarrow> poolOk p'
                    | Some e \<Rightarrow> list_all closedAfterSignal (objs p'))"
proof (cases ev)
  case StopSignal
  with finishWorkers_ok [OF assms] show ?thesis by (simp add: poolStep_def)
next
  case AllDone
  show ?thesis
  proof (cases "length (workers p) \<le> length (errC p)")
    case True
    from closeWorkers_ok [OF assms] obtain p' where
      "closeWorkers p = Inr p'" "list_all closedAfterSignal (objs p')" by blast
    with True AllDone show ?thesis by (simp add: poolStep_def)
  next
    case False
    with AllDone assms show ?thesis by (simp add: poolStep_def)
  qed
next
  case (IssueCall k)
  with workerStep_ok [OF assms, of ev] show ?thesis by (simp add: poolStep_def)
next
  case (WorkerReturns k e)
  with workerStep_ok [OF assms, of ev] show ?thesis by (simp add: poolStep_def)
next
  case (Deactivate k)
  with workerStep_ok [OF assms, of ev] show ?thesis by (simp add: poolStep_def)
qed

lemma poolLoop_ok:
  "poolOk p \<Longrightarrow>
   \<exists>p' r. poolLoop es p = Inr (p', r)
          \<and> (case r of None \<Rightarrow> poolOk p' | Some e \<Rightarrow> list_all closedAfterSignal (objs p'))"
proof (induction es arbitrary: p)
  case Nil
  then show ?case by simp
next
  case (Cons ev es)
  from poolStep_ok [OF Cons.prems, of ev] obtain p1 r1 where
    st: "poolStep ev p = Inr (p1, r1)"
    and c: "case r1 of None \<Rightarrow> poolOk p1 | Some e \<Rightarrow> list_all closedAfterSignal (objs p1)"
    by blast
  show ?case
  proof (cases r1)
    case None
    with c have "poolOk p1" by simp
    from Cons.IH [OF this] show ?thesis using st None by simp
  next
    case (Some e)
    with c st show ?thesis by simp
  qed
qed

lemma createdUpTo_poolOk:
  assumes "createdUpTo cfg i p"
  shows "poolOk p"
proof -
  from assms have l: "length (objs p) = nat i"
    and ws: "workers p = map (\<lambda>m. (workerID (objs p ! m), m)) [0..<nat i]"
    and fr: "list_all (\<lambda>w. active w \<and> wdone w = Some []) (objs p)"
    by (simp_all add: createdUpTo_def)
  have "map snd (workers p) = [0..<length (objs p)]"
    by (simp add: ws l comp_def)
  moreover have "list_all atMostOneSignal (objs p)"
    using fr by (simp add: list_all_iff atMostOneSignal_def)
  ultimately show ?thesis by (simp add: poolOk_def)
qed


subsection \<open>Stop notifications\<close>

lemma startPool_sample: "startPool readyRequester = Inr (samplePool, None)"
  by code_simp

lemma stopSchedule_eval:
  "map_sum id (\<lambda>(p, r). (map wdone (objs p), r)) (poolLoop stopSchedule samplePool)
   = Inr ([Some [Send, Close], Some [Close], Some [Send, Close]], Some None)"
  by code_simp

text \<open>
  C6. For a pool that the code has created and every schedule of stop signals, worker
  steps and completion: the loop never panics; while it runs, every worker's stop channel
  has carried no notification, or one notification and the worker is inactive; a stop
  signal marks exactly the active workers inactive and sends each of them one
  notification, leaving the inactive ones as they are; and once the function has
  returned every stop channel is closed, with the close as the last operation after at
  most one notification.
\<close>

theorem stop_channel_signalled_at_most_once:
  assumes "startPool b = Inr (p0, None)"
  shows "(\<exists>p r. poolLoop es p0 = Inr (p, r)
            \<and> (case r of
                  None \<Rightarrow> list_all atMostOneSignal (objs p)
                | Some e \<Rightarrow> list_all closedAfterSignal (objs p)))
       \<and> (\<forall>p. poolLoop es p0 = Inr (p, None) \<longrightarrow>
              finishWorkers p = Inr (p\<lparr>objs := map signalIfActive (objs p)\<rparr>))
       \<and> runConstConcurrencyWorkers es b = poolLoop es p0"
proof -
  from startPool_created [OF assms] have "createdUpTo (config b) (c (config b)) p0" by simp
  then have ok: "poolOk p0" by (rule createdUpTo_poolOk)
  from poolLoop_ok [OF ok, of es] obtain p r where
    run: "poolLoop es p0 = Inr (p, r)"
    and c: "case r of None \<Rightarrow> poolOk p | Some e \<Rightarrow> list_all closedAfterSignal (objs p)"
    by blast
  have 1: "\<exists>p r. poolLoop es p0 = Inr (p, r)
            \<and> (case r of
                  None \<Rightarrow> list_all atMostOneSignal (objs p)
                | Some e \<Rightarrow> list_all closedAfterSignal (objs p))"
    using run c by (cases r) (auto simp: poolOk_def)
  have 2: "\<forall>p. poolLoop es p0 = Inr (p, None) \<longrightarrow>
              finishWorkers p = Inr (p\<lparr>objs := map signalIfActive (objs p)\<rparr>)"
  proof (intro allI impI)
    fix p' assume "poolLoop es p0 = Inr (p', None)"
    with run c have "poolOk p'" by simp
    from finishWorkers_ok [OF this]
    show "finishWorkers p' = Inr (p'\<lparr>objs := map signalIfActive (objs p')\<rparr>)" by simp
  qed
  have 3: "runConstConcurrencyWorkers es b = poolLoop es p0"
    using assms by (simp add: runConstConcurrencyWorkers_def)
  from 1 2 3 show ?thesis by blast
qed

theorem stop_channel_signalled_at_most_once_witness:
  "startPool readyRequester = Inr (samplePool, None)
   \<and> (\<exists>p r. poolLoop stopSchedule samplePool = Inr (p, r)
          \<and> (case r of
                None \<Rightarrow> list_all atMostOneSignal (objs p)
              | Some e \<Rightarrow> list_all closedAfterSignal (objs p)))
   \<and> map_sum id (\<lambda>(p, r). (map wdone (objs p), r)) (poolLoop stopSchedule samplePool)
       = Inr ([Some [Send, Close], Some [Close], Some [Send, Close]], Some None)"
  using stop_channel_signalled_at_most_once [OF startPool_sample, of stopSchedule]
    startPool_sample stopSchedule_eval
  by blast

subsection \<open>Helper facts about the quota\<close>

lemma sum_list_map_update:
  "k < length xs \<Longrightarrow>
   sum_list (map f (xs[k := x])) = sum_list (map f xs) + f x - (f (xs ! k) :: int)"
  by (induction xs arbitrary: k) (auto split: nat.splits)

lemma filter_update_same:
  "k < length xs \<Longrightarrow> P x = P (xs ! k) \<Longrightarrow>
   length (filter P (xs[k := x])) = length (filter P xs)"
  by (induction xs arbitrary: k) (auto split: nat.splits)

lemma filter_update_new:
  "k < length xs \<Longrightarrow> \<not> P (xs ! k) \<Longrightarrow> P x \<Longrightarrow>
   length (filter P (xs[k := x])) = Suc (length (filter P xs))"
  by (induction xs arbitrary: k) (auto split: nat.splits)

lemma filter_all:
  assumes "length xs \<le> length (filter P xs)"
  shows "list_all P xs"
proof (rule ccontr)
  assume "\<not> list_all P xs"
  then obtain x where "x \<in> set xs" "\<not> P x" by (auto simp: list_all_iff)
  then have "length (filter P xs) < length xs" by (rule length_filter_less)
  with assms show False by simp
qed

lemma sum_list_const:
  "list_all (\<lambda>r. f r = (q::int)) xs \<Longrightarrow> sum_list (map f xs) = int (length xs) * q"
  by (induction xs) (auto simp: algebra_simps)

lemma goDiv_floor:
  assumes "0 < b" and "0 \<le> a" and "a < 2 ^ 63"
  shows "goDiv a b = Inr (a div b)"
proof -
  have q: "sgn a * sgn b * (\<bar>a\<bar> div \<bar>b\<bar>) = a div b"
    using assms(1,2) by (cases "a = 0") (simp_all add: sgn_if)
  have lo: "0 \<le> a div b" using assms(1,2) by (simp add: pos_imp_zdiv_nonneg_iff)
  have "a div b \<le> a div 1" using assms(1,2) by (intro zdiv_mono2) simp_all
  then have "a div b \<le> a" by simp
  with assms(3) have hi: "a div b < 2 ^ 63" by simp
  have "(a div b + 2 ^ 63) mod 2 ^ 64 = a div b + 2 ^ 63"
    using lo hi by (simp add: mod_pos_pos_trivial)
  then have "wrapInt (a div b) = a div b" by (simp add: wrapInt_def)
  with assms(1) q show ?thesis by (simp add: goDiv_def)
qed

lemma quotaRun_start:
  assumes "createdUpTo cfg i p"
  shows "quotaRun (counter p) (nReqPerWorker p) p \<or> nReqPerWorker p < 0"
proof (cases "nReqPerWorker p < 0")
  case True
  then show ?thesis by simp
next
  case False
  from assms have lo: "length (objs p) = nat i" and lr: "length (runs p) = nat i"
    and ws: "workers p = map (\<lambda>m. (workerID (objs p ! m), m)) [0..<nat i]"
    and fr: "list_all (\<lambda>w. active w \<and> wdone w = Some []) (objs p)"
    and rs: "list_all (\<lambda>r. reqCount r = 0 \<and> \<not> finished r) (runs p)"
    and ec: "errC p = []"
    by (simp_all add: createdUpTo_def)
  have 1: "list_all (\<lambda>w. \<not> stopPending w) (objs p)"
    using fr by (simp add: list_all_iff stopPending_def)
  have 2: "list_all (\<lambda>r. reqCount r \<le> nReqPerWorker p
                      \<and> (finished r \<longrightarrow> reqCount r = nReqPerWorker p)) (runs p)"
    using rs False by (simp add: list_all_iff)
  have "list_all (\<lambda>r. reqCount r = 0) (runs p)" using rs by (simp add: list_all_iff)
  from sum_list_const [OF this] have 3: "sum_list (map reqCount (runs p)) = 0" by simp
  have 4: "filter finished (runs p) = []" using rs by (simp add: list_all_iff filter_empty_conv)
  have 5: "length (workers p) = length (objs p)" by (simp add: ws lo)
  show ?thesis
    by (simp add: quotaRun_def lo lr 1 2 3 4 5 ec)
qed

lemma workerStep_quotaRun:
  assumes inv: "quotaRun c0 q p"
  shows "quotaRun c0 q (workerStep ev p)"
proof -
  from inv have lr: "length (runs p) = length (objs p)"
    and lw: "length (workers p) = length (objs p)"
    and nq: "nReqPerWorker p = q"
    and sp: "list_all (\<lambda>w. \<not> stopPending w) (objs p)"
    and rs: "list_all (\<lambda>r. reqCount r \<le> q \<and> (finished r \<longrightarrow> reqCount r = q)) (runs p)"
    and cn: "counter p = c0 + sum_list (map reqCount (runs p))"
    and ec: "length (errC p) = length (filter finished (runs p))"
    by (simp_all add: quotaRun_def)
  show ?thesis
  proof (cases ev)
    case StopSignal
    with inv show ?thesis by (simp add: workerStep_def)
  next
    case AllDone
    with inv show ?thesis by (simp add: workerStep_def)
  next
    case (Deactivate k)
    show ?thesis
    proof (cases "k < length (objs p)")
      case False
      with inv Deactivate show ?thesis by (simp add: workerStep_def)
    next
      case True
      have "\<not> stopPending (objs p ! k)" using sp True by (simp add: list_all_iff)
      then have "\<not> stopPending ((objs p ! k)\<lparr>active := False\<rparr>)"
        by (simp add: stopPending_def)
      with sp have "list_all (\<lambda>w. \<not> stopPending w) ((objs p)[k := (objs p ! k)\<lparr>active := False\<rparr>])"
        by (rule list_all_update)
      with True Deactivate lr lw nq rs cn ec show ?thesis
        by (simp add: workerStep_def quotaRun_def)
    qed
  next
    case (IssueCall k)
    let ?en = "k < length (runs p) \<and> k < length (objs p) \<and> \<not> finished (runs p ! k)
               \<and> mayContinue p k"
    show ?thesis
    proof (cases ?en)
      case False
      then have "workerStep ev p = p"
        by (simp only: workerStep_def IssueCall poolEvent.case if_False)
      with inv show ?thesis by simp
    next
      case True
      then have k: "k < length (runs p)" and nf: "\<not> finished (runs p ! k)"
        and mc: "reqCount (runs p ! k) < q"
        by (simp_all add: mayContinue_def continueFn_def nq)
      let ?r = "(runs p ! k)\<lparr>reqCount := reqCount (runs p ! k) + 1\<rparr>"
      have r1: "reqCount ?r \<le> q \<and> (finished ?r \<longrightarrow> reqCount ?r = q)" using mc nf by simp
      have rs': "list_all (\<lambda>r. reqCount r \<le> q \<and> (finished r \<longrightarrow> reqCount r = q))
                   ((runs p)[k := ?r])"
        using rs r1 by (rule list_all_update)
      have sm: "sum_list (map reqCount ((runs p)[k := ?r])) = sum_list (map reqCount (runs p)) + 1"
        using sum_list_map_update [OF k, of reqCount ?r] by simp
      have fl: "length (filter finished ((runs p)[k := ?r])) = length (filter finished (runs p))"
        using filter_update_same [of k "runs p" finished ?r] k by simp
      have st: "workerStep ev p = p\<lparr>runs := (runs p)[k := ?r], counter := counter p + 1\<rparr>"
        using True IssueCall by (simp add: workerStep_def)
      show ?thesis
        unfolding st using lr lw nq sp rs' cn ec by (simp add: quotaRun_def sm fl)
    qed
  next
    case (WorkerReturns k e)
    let ?en = "k < length (runs p) \<and> k < length (objs p) \<and> \<not> finished (runs p ! k)
               \<and> (\<not> mayContinue p k \<or> stopPending (objs p ! k))"
    show ?thesis
    proof (cases ?en)
      case False
      then have "workerStep ev p = p"
        by (simp only: workerStep_def WorkerReturns poolEvent.case if_False)
      with inv show ?thesis by simp
    next
      case True
      then have k: "k < length (runs p)" and ko: "k < length (objs p)"
        and nf: "\<not> finished (runs p ! k)" by simp_all
      have "\<not> stopPending (objs p ! k)" using sp ko by (simp add: list_all_iff)
      with True have ge: "\<not> reqCount (runs p ! k) < q"
        by (simp add: mayContinue_def continueFn_def nq)
      have "reqCount (runs p ! k) \<le> q" using rs k by (simp add: list_all_iff)
      with ge have eq: "reqCount (runs p ! k) = q" by simp
      let ?r = "(runs p ! k)\<lparr>finished := True\<rparr>"
      have r1: "reqCount ?r \<le> q \<and> (finished ?r \<longrightarrow> reqCount ?r = q)" using eq by simp
      have rs': "list_all (\<lambda>r. reqCount r \<le> q \<and> (finished r \<longrightarrow> reqCount r = q))
                   ((runs p)[k := ?r])"
        using rs r1 by (rule list_all_update)
      have sm: "sum_list (map reqCount ((runs p)[k := ?r])) = sum_list (map reqCount (runs p))"
        using sum_list_map_update [OF k, of reqCount ?r] by simp
      have fl: "length (filter finished ((runs p)[k := ?r]))
                = Suc (length (filter finished (runs p)))"
        using filter_update_new [of k "runs p" finished ?r] k nf by simp
      have st: "workerStep ev p = p\<lparr>runs := (runs p)[k := ?r], errC := errC p @ [e]\<rparr>"
        using True WorkerReturns by (simp add: workerStep_def)
      show ?thesis
        unfolding st using lr lw nq sp rs' cn ec by (simp add: quotaRun_def sm fl)
    qed
  qed
qed

lemma closeWorkers_frame:
  "closeWorkers p = Inr p' \<Longrightarrow> runs p' = runs p \<and> counter p' = counter p"
  by (auto simp: closeWorkers_def split: sum.splits)

lemma poolStep_quotaRun:
  assumes "quotaRun c0 q p" and "ev \<noteq> StopSignal" and "poolStep ev p = Inr (p', r)"
  shows "(r = None \<longrightarrow> quotaRun c0 q p')
         \<and> (r \<noteq> None \<longrightarrow> list_all (\<lambda>r. reqCount r = q \<and> finished r) (runs p')
                         \<and> counter p' = c0 + int (length (runs p')) * q
                         \<and> length (runs p') = length (objs p))"
proof (cases "ev = AllDone \<and> length (workers p) \<le> length (errC p)")
  case True
  from assms(1) have lr: "length (runs p) = length (objs p)"
    and lw: "length (workers p) = length (objs p)"
    and rs: "list_all (\<lambda>r. reqCount r \<le> q \<and> (finished r \<longrightarrow> reqCount r = q)) (runs p)"
    and cn: "counter p = c0 + sum_list (map reqCount (runs p))"
    and ec: "length (errC p) = length (filter finished (runs p))"
    by (simp_all add: quotaRun_def)
  from True assms(3) have cl: "closeWorkers p = Inr p'" and r: "r \<noteq> None"
    by (auto simp: poolStep_def split: sum.splits)
  from closeWorkers_frame [OF cl] have fr: "runs p' = runs p" "counter p' = counter p"
    by simp_all
  from True lw lr ec have "length (runs p) \<le> length (filter finished (runs p))" by simp
  then have fin: "list_all finished (runs p)" by (rule filter_all)
  with rs have all: "list_all (\<lambda>r. reqCount r = q \<and> finished r) (runs p)"
    by (simp add: list_all_iff)
  then have "list_all (\<lambda>r. reqCount r = q) (runs p)" by (simp add: list_all_iff)
  from sum_list_const [OF this] cn have "counter p = c0 + int (length (runs p)) * q" by simp
  with all fr r lr show ?thesis by auto
next
  case False
  with assms(2,3) have "p' = workerStep ev p \<or> p' = p" and r: "r = None"
    by (cases ev; auto simp: poolStep_def)+
  with assms(1) workerStep_quotaRun [OF assms(1), of ev] show ?thesis by auto
qed

lemma poolLoop_quotaRun:
  "quotaRun c0 q p \<Longrightarrow> StopSignal \<notin> set es \<Longrightarrow> poolLoop es p = Inr (p', Some e) \<Longrightarrow>
   list_all (\<lambda>r. reqCount r = q \<and> finished r) (runs p')
   \<and> counter p' = c0 + int (length (runs p')) * q
   \<and> length (runs p') = length (objs p)"
proof (induction es arbitrary: p)
  case Nil
  then show ?case by simp
next
  case (Cons ev es)
  from Cons.prems(2) have ne: "ev \<noteq> StopSignal" and rest: "StopSignal \<notin> set es" by auto
  from Cons.prems(3) obtain p1 r1 where st: "poolStep ev p = Inr (p1, r1)"
    by (auto split: sum.splits)
  note step = poolStep_quotaRun [OF Cons.prems(1) ne st]
  show ?case
  proof (cases r1)
    case None
    with step have inv: "quotaRun c0 q p1" by simp
    from Cons.prems(3) st None have run: "poolLoop es p1 = Inr (p', Some e)" by simp
    have lo: "length (objs p1) = length (objs p)"
      using st None ne
      by (cases ev) (auto simp: poolStep_def workerStep_def split: if_splits sum.splits)
    from Cons.IH [OF inv rest run] lo show ?thesis by simp
  next
    case (Some e1)
    with Cons.prems(3) st have "p' = p1" by simp
    with step Some show ?thesis by simp
  qed
qed


subsection \<open>Quota and issued calls\<close>

lemma quotaSchedule_eval:
  "map_sum id (\<lambda>(p, r). (map reqCount (runs p), counter p, r))
     (poolLoop quotaSchedule samplePool) = Inr ([2, 2, 2], 6, Some None)"
  by code_simp

text \<open>
  C4. For a requester with \<open>c > 0\<close> and a request count \<open>n\<close> (a Go int that is not
  negative), every worker gets the quota \<open>n div c\<close>: its continuation predicate holds
  exactly while its completed-request count is below \<open>n div c\<close>. On every schedule
  without a stop signal on which the pool returns, each of the \<open>c\<close> worker goroutines
  has returned with exactly \<open>n div c\<close> completed requests, the request counter has
  advanced by \<open>c * (n div c)\<close>, and the \<open>n mod c\<close> requests that remain are not
  issued.
\<close>

theorem constant_concurrency_issues_c_times_quota:
  assumes "0 < c (config b)" and "0 \<le> n (config b)" and "n (config b) < 2 ^ 63"
    and "startPool b = Inr (p0, None)"
    and "StopSignal \<notin> set es"
    and "poolLoop es p0 = Inr (p, Some e)"
  shows "nReqPerWorker p0 = n (config b) div c (config b)
       \<and> (\<forall>wid er reqCnt dur.
             continueFn (nReqPerWorker p0) wid er reqCnt dur
               \<longleftrightarrow> reqCnt < n (config b) div c (config b))
       \<and> length (runs p) = nat (c (config b))
       \<and> list_all (\<lambda>r. reqCount r = n (config b) div c (config b) \<and> finished r) (runs p)
       \<and> counter p - reqCounter b = c (config b) * (n (config b) div c (config b))
       \<and> n (config b) - (counter p - reqCounter b) = n (config b) mod c (config b)
       \<and> runConstConcurrencyWorkers es b = Inr (p, Some e)"
proof -
  let ?q = "n (config b) div c (config b)"
  from startPool_created [OF assms(4)]
  have inv: "createdUpTo (config b) (c (config b)) p0"
    and cn: "counter p0 = reqCounter b"
    and gd: "goDiv (n (config b)) (c (config b)) = Inr (nReqPerWorker p0)" by simp_all
  from goDiv_floor [OF assms(1,2,3)] gd have q: "nReqPerWorker p0 = ?q" by simp
  have q0: "0 \<le> ?q" using assms(1,2) by (simp add: pos_imp_zdiv_nonneg_iff)
  from quotaRun_start [OF inv] q q0 cn have qr: "quotaRun (reqCounter b) ?q p0" by simp
  from inv have lo: "length (objs p0) = nat (c (config b))" by (simp add: createdUpTo_def)
  from poolLoop_quotaRun [OF qr assms(5,6)]
  have all: "list_all (\<lambda>r. reqCount r = ?q \<and> finished r) (runs p)"
    and tot: "counter p = reqCounter b + int (length (runs p)) * ?q"
    and len: "length (runs p) = length (objs p0)" by simp_all
  have len': "length (runs p) = nat (c (config b))" using len lo by simp
  have tot': "counter p - reqCounter b = c (config b) * ?q"
    using tot len' assms(1) by simp
  have rem: "n (config b) - (counter p - reqCounter b) = n (config b) mod c (config b)"
    unfolding tot' by (simp add: minus_mult_div_eq_mod)
  have pred: "\<forall>wid er reqCnt dur.
             continueFn (nReqPerWorker p0) wid er reqCnt dur \<longleftrightarrow> reqCnt < ?q"
    by (simp add: continueFn_def q)
  have run: "runConstConcurrencyWorkers es b = Inr (p, Some e)"
    using assms(4,6) by (simp add: runConstConcurrencyWorkers_def)
  from q pred len' all tot' rem run show ?thesis by (intro conjI)
qed

theorem constant_concurrency_issues_c_times_quota_witness:
  "0 < c (config readyRequester) \<and> 0 \<le> n (config readyRequester)
   \<and> n (config readyRequester) = 7 \<and> c (config readyRequester) = 3
   \<and> startPool readyRequester = Inr (samplePool, None)
   \<and> StopSignal \<notin> set quotaSchedule
   \<and> (\<exists>p. poolLoop quotaSchedule samplePool = Inr (p, Some None)
          \<and> map reqCount (runs p) = [2, 2, 2]
          \<and> counter p - reqCounter readyRequester = 6
          \<and> n (config readyRequester) - (counter p - reqCounter readyRequester) = 1)"
proof -
  have h1: "0 < c (config readyRequester)" by (simp add: readyRequester_def sample_defs)
  have h2: "0 \<le> n (config readyRequester)" by (simp add: readyRequester_def sample_defs)
  have h3: "n (config readyRequester) < 2 ^ 63" by (simp add: readyRequester_def sample_defs)
  have nc: "n (config readyRequester) = 7" "c (config readyRequester) = 3"
    by (simp_all add: readyRequester_def sample_defs)
  have h5: "StopSignal \<notin> set quotaSchedule" by (simp add: quotaSchedule_def)
  obtain p where h6: "poolLoop quotaSchedule samplePool = Inr (p, Some None)"
    and rc: "map reqCount (runs p) = [2, 2, 2]"
    using quotaSchedule_eval
    by (cases "poolLoop quotaSchedule samplePool") auto
  from constant_concurrency_issues_c_times_quota [OF h1 h2 h3 startPool_sample h5 h6]
  have t: "counter p - reqCounter readyRequester = 6"
    and u: "n (config readyRequester) - (counter p - reqCounter readyRequester) = 1"
    by (simp_all add: nc)
  have "\<exists>p. poolLoop quotaSchedule samplePool = Inr (p, Some None)
          \<and> map reqCount (runs p) = [2, 2, 2]
          \<and> counter p - reqCounter readyRequester = 6
          \<and> n (config readyRequester) - (counter p - reqCounter readyRequester) = 1"
    using h6 rc t u by (intro exI [of _ p]) simp
  with h1 h2 nc startPool_sample h5 show ?thesis by simp
qed

subsection \<open>The stop case of Run\<close>














lemma closeClientConns_eq:
  "closeClientConns b w =
     (b\<lparr>conns := None\<rparr>, w\<lparr>closeLog := closeLog w @ elems (conns b)\<rparr>)"
  by (cases "conns b") (simp_all add: closeClientConns_def elems_def)

lemma applyStopPolicy_frame:
  "stopReason (applyStopPolicy st) = stopReason st
   \<and> stopBuf (applyStopPolicy st) = stopBuf st
   \<and> sendBlocked (applyStopPolicy st) = sendBlocked st
   \<and> doneBuf (applyStopPolicy st) = doneBuf st
   \<and> launched (applyStopPolicy st) = launched st
   \<and> pl (applyStopPolicy st) = pl st
   \<and> crashed (applyStopPolicy st) = crashed st
   \<and> retval (applyStopPolicy st) = retval st
   \<and> config (rq (applyStopPolicy st)) = config (rq st)"
  by (simp add: applyStopPolicy_def closeClientConns_eq ignoreAll_def)


















subsection \<open>The return of Run\<close>

lemma startPool_not_returned: "startPool b \<noteq> Inr (p, Some r)"
  by (auto simp: startPool_def goDiv_def Let_def split: sum.splits if_splits)

lemma poolStep_returns_AllDone: "poolStep ev p = Inr (p', Some r) \<Longrightarrow> ev = AllDone"
  by (cases ev) (auto simp: poolStep_def split: sum.splits if_splits)

lemma applyStopPolicy_fields:
  "doneBuf (applyStopPolicy st) = doneBuf st"
  "retval (applyStopPolicy st) = retval st"
  "pl (applyStopPolicy st) = pl st"
  "config (rq (applyStopPolicy st)) = config (rq st)"
  using applyStopPolicy_frame [of st] by simp_all

lemma onStopRequest_frame:
  "doneBuf (onStopRequest reason st) = doneBuf st
   \<and> retval (onStopRequest reason st) = retval st
   \<and> pl (onStopRequest reason st) = pl st
   \<and> config (rq (onStopRequest reason st)) = config (rq st)"
  by (simp add: onStopRequest_def Let_def applyStopPolicy_fields)

lemma launchPool_frame:
  "doneBuf (launchPool st) = doneBuf st \<and> retval (launchPool st) = retval st
   \<and> config (rq (launchPool st)) = config (rq st)"
proof (cases "startPool (rq st)")
  case (Inl f)
  then show ?thesis by (simp add: launchPool_def)
next
  case (Inr pr)
  obtain p r where pr: "pr = (p, r)" by (cases pr)
  with Inr startPool_not_returned [of "rq st" p] have "r = None" by (cases r) auto
  with Inr pr show ?thesis by (simp add: launchPool_def)
qed

lemma launchPool_other:
  "loadStrategy (config (rq st)) \<noteq> StrategyConcurrency
     \<or> loadSchedule (config (rq st)) \<noteq> ScheduleConst \<Longrightarrow>
   launchPool st = st\<lparr>launched := True\<rparr>"
  by (auto simp: launchPool_def)

lemma onPoolEvent_frame:
  "retval (onPoolEvent pe st) = retval st
   \<and> config (rq (onPoolEvent pe st)) = config (rq st)
   \<and> (doneBuf st = None \<and> doneBuf (onPoolEvent pe st) \<noteq> None \<longrightarrow> pe = AllDone)"
proof (cases "pl st")
  case None
  then show ?thesis by (auto simp: onPoolEvent_def)
next
  case (Some p)
  show ?thesis
  proof (cases "pe = StopSignal \<and> stopBuf st = 0")
    case True
    with Some show ?thesis by (auto simp: onPoolEvent_def)
  next
    case False
    show ?thesis
    proof (cases "poolStep pe p")
      case (Inl f)
      with Some False show ?thesis by (auto simp: onPoolEvent_def)
    next
      case (Inr pr)
      obtain p' r where pr: "pr = (p', r)" by (cases pr)
      show ?thesis
      proof (cases r)
        case None
        with \<open>pl st = Some p\<close> False Inr pr show ?thesis
          by (auto simp: onPoolEvent_def Let_def applyStopPolicy_fields)
      next
        case (Some er)
        with Inr pr have ad: "pe = AllDone" using poolStep_returns_AllDone by blast
        with \<open>pl st = Some p\<close> Inr pr Some show ?thesis
          by (auto simp: onPoolEvent_def Let_def)
      qed
    qed
  qed
qed

lemma runStep_retval:
  "retval st = None \<Longrightarrow> retval (runStep ev st) \<noteq> None \<Longrightarrow>
   ev = DoneReceived \<and> doneBuf st \<noteq> None"
proof (cases ev)
  case (StopRequest reason)
  assume "retval st = None" "retval (runStep ev st) \<noteq> None"
  with StopRequest onStopRequest_frame [of reason st] show ?thesis
    by (simp add: runStep_def split: if_splits)
next
  case DoneReceived
  assume "retval st = None" "retval (runStep ev st) \<noteq> None"
  with DoneReceived show ?thesis
    by (cases "doneBuf st") (simp_all add: runStep_def split: if_splits)
next
  case PoolStarts
  assume "retval st = None" "retval (runStep ev st) \<noteq> None"
  with PoolStarts launchPool_frame [of st] show ?thesis
    by (simp add: runStep_def split: if_splits)
next
  case (PoolEvent pe)
  assume "retval st = None" "retval (runStep ev st) \<noteq> None"
  with PoolEvent onPoolEvent_frame [of pe st] show ?thesis
    by (simp add: runStep_def split: if_splits)
qed

lemma runStep_doneBuf:
  "doneBuf st = None \<Longrightarrow> doneBuf (runStep ev st) \<noteq> None \<Longrightarrow> ev = PoolEvent AllDone"
proof (cases ev)
  case (StopRequest reason)
  assume "doneBuf st = None" "doneBuf (runStep ev st) \<noteq> None"
  with StopRequest onStopRequest_frame [of reason st] show ?thesis
    by (simp add: runStep_def split: if_splits)
next
  case DoneReceived
  assume "doneBuf st = None" "doneBuf (runStep ev st) \<noteq> None"
  with DoneReceived show ?thesis by (simp add: runStep_def split: if_splits)
next
  case PoolStarts
  assume "doneBuf st = None" "doneBuf (runStep ev st) \<noteq> None"
  with PoolStarts launchPool_frame [of st] show ?thesis
    by (simp add: runStep_def split: if_splits)
next
  case (PoolEvent pe)
  assume "doneBuf st = None" "doneBuf (runStep ev st) \<noteq> None"
  with PoolEvent onPoolEvent_frame [of pe st] show ?thesis
    by (simp add: runStep_def split: if_splits)
qed

lemma runLoop_returned: "retval st \<noteq> None \<Longrightarrow> runLoop es st = st"
  by (induction es arbitrary: st) (simp_all add: runStep_def)

lemma runLoop_needs_DoneReceived:
  "retval st = None \<Longrightarrow> retval (runLoop es st) \<noteq> None \<Longrightarrow> DoneReceived \<in> set es"
proof (induction es arbitrary: st)
  case Nil
  then show ?case by simp
next
  case (Cons ev es)
  show ?case
  proof (cases "retval (runStep ev st) = None")
    case True
    from Cons.IH [OF True] Cons.prems(2) show ?thesis by simp
  next
    case False
    from runStep_retval [OF Cons.prems(1) False] show ?thesis by simp
  qed
qed

lemma runLoop_needs_AllDone:
  "retval st = None \<Longrightarrow> doneBuf st = None \<Longrightarrow> retval (runLoop es st) \<noteq> None \<Longrightarrow>
   PoolEvent AllDone \<in> set es"
proof (induction es arbitrary: st)
  case Nil
  then show ?case by simp
next
  case (Cons ev es)
  have r1: "retval (runStep ev st) = None"
    using runStep_retval [OF Cons.prems(1), of ev] Cons.prems(2) by blast
  show ?case
  proof (cases "doneBuf (runStep ev st) = None")
    case True
    from Cons.IH [OF r1 True] Cons.prems(3) show ?thesis by simp
  next
    case False
    from runStep_doneBuf [OF Cons.prems(2) False] show ?thesis by simp
  qed
qed

lemma runStep_other_strategy:
  assumes "loadStrategy (config (rq st)) \<noteq> StrategyConcurrency
             \<or> loadSchedule (config (rq st)) \<noteq> ScheduleConst"
    and "pl st = None" and "doneBuf st = None" and "retval st = None"
  shows "config (rq (runStep ev st)) = config (rq st) \<and> pl (runStep ev st) = None
         \<and> doneBuf (runStep ev st) = None \<and> retval (runStep ev st) = None"
proof (cases ev)
  case (StopRequest reason)
  with assms onStopRequest_frame [of reason st] show ?thesis by (simp add: runStep_def)
next
  case DoneReceived
  with assms show ?thesis by (simp add: runStep_def)
next
  case PoolStarts
  with assms launchPool_other [OF assms(1)] show ?thesis by (simp add: runStep_def)
next
  case (PoolEvent pe)
  with assms show ?thesis by (simp add: runStep_def onPoolEvent_def)
qed

lemma runLoop_other_strategy:
  "loadStrategy (config (rq st)) \<noteq> StrategyConcurrency
     \<or> loadSchedule (config (rq st)) \<noteq> ScheduleConst \<Longrightarrow>
   pl st = None \<Longrightarrow> doneBuf st = None \<Longrightarrow> retval st = None \<Longrightarrow>
   retval (runLoop es st) = None"
proof (induction es arbitrary: st)
  case Nil
  then show ?case by simp
next
  case (Cons ev es)
  from runStep_other_strategy [OF Cons.prems, of ev]
  have c: "config (rq (runStep ev st)) = config (rq st)" and p: "pl (runStep ev st) = None"
    and d: "doneBuf (runStep ev st) = None" and r: "retval (runStep ev st) = None"
    by simp_all
  from Cons.prems(1) c have s: "loadStrategy (config (rq (runStep ev st))) \<noteq> StrategyConcurrency
     \<or> loadSchedule (config (rq (runStep ev st))) \<noteq> ScheduleConst" by simp
  from Cons.IH [OF s p d r] show ?case by simp
qed

lemma stubLoop_config: "stubLoop cc m i b = Inr b' \<Longrightarrow> config b' = config b"
proof (induction "nat (m - i)" arbitrary: i b)
  case 0
  then show ?case by (simp add: stubLoop.simps)
next
  case (Suc d)
  then have lt: "i < m" by simp
  show ?case
  proof (cases "i < 0 \<or> int (length cc) \<le> i")
    case True
    with lt Suc.prems show ?thesis by (subst (asm) stubLoop.simps) auto
  next
    case False
    let ?b = "b\<lparr>stubs := stubs b @ [NewStub (cc ! nat i)]\<rparr>"
    have d: "d = nat (m - (i + 1))" using Suc.hyps(2) by simp
    have "stubLoop cc m (i + 1) ?b = Inr b'"
      using Suc.prems lt False by (subst (asm) stubLoop.simps) simp
    from Suc.hyps(1) [OF d this] show ?thesis by simp
  qed
qed

lemma openClientConns_config:
  "openClientConns dial b w = (Inr cc, b', w') \<Longrightarrow> config b' = config b"
  using openLoop_Inr [of dial "nConns (config b)" 0 b w cc b' w']
  by (auto simp: openClientConns_def split: if_splits)


lemma Run_opened:
  assumes "openClientConns dial b w = (Inr cc, b1, w1)"
  shows "(\<exists>f. retval (Run dial es b w) = None \<and> crashed (Run dial es b w) = Some f)
         \<or> (\<exists>st. Run dial es b w = runLoop es st \<and> retval st = None \<and> doneBuf st = None
                  \<and> pl st = None \<and> config (rq st) = config b)"
proof (cases "stubLoop (elems cc) (nConns (config b1)) 0 b1")
  case (Inl f)
  with assms show ?thesis by (simp add: Run_def)
next
  case (Inr b2)
  from stubLoop_config [OF Inr] openClientConns_config [OF assms]
  have c: "config b2 = config b" by simp
  let ?s0 = "\<lparr>rq = b2, wd = w1, stopReason = ReasonNormalEnd, stopBuf = 0,
              sendBlocked = False, doneBuf = None, launched = False, pl = None,
              crashed = None, retval = None\<rparr>"
  have "Run dial es b w = runLoop es ?s0" using assms Inr by (simp add: Run_def)
  moreover have "retval ?s0 = None \<and> doneBuf ?s0 = None \<and> pl ?s0 = None
                 \<and> config (rq ?s0) = config b" using c by simp
  ultimately show ?thesis by blast
qed

text \<open>
  C10. Once the pool of connections is open, \<^verbatim>\<open>Run\<close> returns only when its
  \<^verbatim>\<open>select\<close> takes the completion of the worker pool: on a schedule after which
  \<^verbatim>\<open>Run\<close> has returned, the pool has completed and its completion has been taken. A
  stop request never makes \<^verbatim>\<open>Run\<close> return, and on a schedule of stop requests only
  \<^verbatim>\<open>Run\<close> has not returned. When the load strategy or the load schedule is not the
  constant one, \<^verbatim>\<open>Run\<close> has not returned after any schedule.
\<close>

theorem Run_returns_only_on_pool_completion:
  assumes "openClientConns dial b w = (Inr cc, b1, w1)"
  shows "(retval (Run dial es b w) \<noteq> None \<longrightarrow>
            DoneReceived \<in> set es \<and> PoolEvent AllDone \<in> set es)
       \<and> ((\<forall>ev\<in>set es. \<exists>reason. ev = StopRequest reason) \<longrightarrow>
            retval (Run dial es b w) = None)
       \<and> (loadStrategy (config b) \<noteq> StrategyConcurrency
            \<or> loadSchedule (config b) \<noteq> ScheduleConst \<longrightarrow>
            retval (Run dial es b w) = None)
       \<and> (retval st = None \<longrightarrow> retval (runStep (StopRequest reason) st) = None)"
proof -
  have 4: "retval st = None \<longrightarrow> retval (runStep (StopRequest reason) st) = None"
    using runStep_retval [of st "StopRequest reason"] by blast
  from Run_opened [OF assms, of es]
  show ?thesis
  proof
    assume "\<exists>f. retval (Run dial es b w) = None \<and> crashed (Run dial es b w) = Some f"
    with 4 show ?thesis by simp
  next
    assume "\<exists>st. Run dial es b w = runLoop es st \<and> retval st = None \<and> doneBuf st = None
                  \<and> pl st = None \<and> config (rq st) = config b"
    then obtain s0 where run: "Run dial es b w = runLoop es s0" and r0: "retval s0 = None"
      and d0: "doneBuf s0 = None" and p0: "pl s0 = None" and c0: "config (rq s0) = config b"
      by blast
    have 1: "retval (Run dial es b w) \<noteq> None \<longrightarrow>
               DoneReceived \<in> set es \<and> PoolEvent AllDone \<in> set es"
      using runLoop_needs_DoneReceived [OF r0, of es] runLoop_needs_AllDone [OF r0 d0, of es]
      by (simp add: run)
    have 2: "(\<forall>ev\<in>set es. \<exists>reason. ev = StopRequest reason) \<longrightarrow>
               retval (Run dial es b w) = None"
    proof
      assume a: "\<forall>ev\<in>set es. \<exists>reason. ev = StopRequest reason"
      show "retval (Run dial es b w) = None"
      proof (rule ccontr)
        assume "retval (Run dial es b w) \<noteq> None"
        with 1 have "DoneReceived \<in> set es" by simp
        with a show False by auto
      qed
    qed
    have 3: "loadStrategy (config b) \<noteq> StrategyConcurrency
               \<or> loadSchedule (config b) \<noteq> ScheduleConst \<longrightarrow>
             retval (Run dial es b w) = None"
    proof
      assume "loadStrategy (config b) \<noteq> StrategyConcurrency
               \<or> loadSchedule (config b) \<noteq> ScheduleConst"
      then have "loadStrategy (config (rq s0)) \<noteq> StrategyConcurrency
               \<or> loadSchedule (config (rq s0)) \<noteq> ScheduleConst" by (simp add: c0)
      from runLoop_other_strategy [OF this p0 d0 r0]
      show "retval (Run dial es b w) = None" by (simp add: run)
    qed
    from 1 2 3 4 show ?thesis by (intro conjI)
  qed
qed

lemma sample_runs_eval:
  "retval (Run (\<lambda>k. None) stoppedRun sampleRequester noWorld)
     = Some (Some \<lparr>endReason = ReasonOther ''timeout''\<rparr>, None)"
  "retval (Run (\<lambda>k. None) stopOnlyRun otherStrategyRequester noWorld) = None"
  "fst (openClientConns (\<lambda>k. None) otherStrategyRequester noWorld) = Inr (Some [0, 1])"
  "loadStrategy (config otherStrategyRequester) \<noteq> StrategyConcurrency"
  by code_simp+

theorem Run_returns_only_on_pool_completion_witness:
  "retval (Run (\<lambda>k. None) stoppedRun sampleRequester noWorld)
     = Some (Some \<lparr>endReason = ReasonOther ''timeout''\<rparr>, None)
   \<and> DoneReceived \<in> set stoppedRun \<and> PoolEvent AllDone \<in> set stoppedRun
   \<and> loadStrategy (config otherStrategyRequester) \<noteq> StrategyConcurrency
   \<and> retval (Run (\<lambda>k. None) stopOnlyRun otherStrategyRequester noWorld) = None"
proof -
  obtain b1 w1 where o: "openClientConns (\<lambda>k. None) otherStrategyRequester noWorld
                         = (Inr (Some [0, 1]), b1, w1)"
    using sample_runs_eval(3)
    by (cases "openClientConns (\<lambda>k. None) otherStrategyRequester noWorld") auto
  from Run_returns_only_on_pool_completion [OF openedSample_eval, of stoppedRun]
    sample_runs_eval(1)
  have a: "DoneReceived \<in> set stoppedRun \<and> PoolEvent AllDone \<in> set stoppedRun" by simp
  from Run_returns_only_on_pool_completion [OF o, of stopOnlyRun] sample_runs_eval(4)
  have b: "retval (Run (\<lambda>k. None) stopOnlyRun otherStrategyRequester noWorld) = None"
    by simp
  from a b sample_runs_eval(1,4) show ?thesis by simp
qed

text \<open>
  A requester serves one run: \<^verbatim>\<open>Run\<close> closes the result channel when it returns, and
  a second \<^verbatim>\<open>Run\<close> on the same requester panics when it closes the channel again.
\<close>

lemma Run_again_panics:
  "crashed (Run (\<lambda>k. None) stoppedRun
             (rq (Run (\<lambda>k. None) stoppedRun sampleRequester noWorld))
             (wd (Run (\<lambda>k. None) stoppedRun sampleRequester noWorld)))
     = Some CloseOfClosedChannel"
  "retval (Run (\<lambda>k. None) stoppedRun
             (rq (Run (\<lambda>k. None) stoppedRun sampleRequester noWorld))
             (wd (Run (\<lambda>k. None) stoppedRun sampleRequester noWorld)))
     = None"
  by code_simp+

end
